theory Spec2Isabelle
  imports Complex_Main
begin

section \<open>Strings and the token estimators\<close>

text \<open>
  A JavaScript string is modelled as a \<^typ>\<open>string\<close>: one \<^typ>\<open>char\<close> per code unit, so
  \<^term>\<open>length\<close> is \<^verbatim>\<open>.length\<close>. The code units covered are those below 256; among them the
  regular expression class \<^verbatim>\<open>\s\<close> matches tab, line feed, vertical tab, form feed, carriage
  return, space and no-break space.
\<close>

definition isSpace :: "char \<Rightarrow> bool" where
  "isSpace c = (c \<in> {CHR 0x09, CHR 0x0A, CHR 0x0B, CHR 0x0C, CHR 0x0D, CHR '' '', CHR 0xA0})"

text \<open>
  \<^verbatim>\<open>text.split(/\s+/)\<close>: the pieces between maximal runs of whitespace. A run at the start
  or at the end of the text leaves an empty piece there, and the empty text gives one
  empty piece, so the result is never the empty list.
\<close>

function splitWs :: "string \<Rightarrow> string list" where
  "splitWs s =
     (let w = takeWhile (\<lambda>c. \<not> isSpace c) s;
          rest = dropWhile (\<lambda>c. \<not> isSpace c) s
      in if rest = [] then [w] else w # splitWs (dropWhile isSpace rest))"
  by pat_completeness auto
termination
proof (relation "measure length", goal_cases)
  case 1
  show ?case by simp
next
  case (2 s w rest)
  then have ne: "rest \<noteq> []" by simp
  have "isSpace (hd rest)"
    using 2 hd_dropWhile[of "\<lambda>c. \<not> isSpace c" s] by auto
  with ne have "length (dropWhile isSpace rest) < length rest"
    by (cases rest) (auto simp: le_imp_less_Suc length_dropWhile_le)
  moreover have "length rest \<le> length s"
    using 2 by (simp add: length_dropWhile_le)
  ultimately show ?case by simp
qed

declare splitWs.simps [simp del]

text \<open>\<^verbatim>\<open>words.join(' ')\<close>.\<close>

fun joinSp :: "string list \<Rightarrow> string" where
  "joinSp [] = []"
| "joinSp [w] = w"
| "joinSp (w # v # ws) = w @ '' '' @ joinSp (v # ws)"

text \<open>
  The estimator local to \<^verbatim>\<open>chunkText\<close> in store.js:
  \<^verbatim>\<open>(text) => Math.ceil(text.split(/\s+/).length / 0.75)\<close>.
  Numbers are exact reals here; 0.75 is a binary fraction and the quotient is rounded up at
  once, so the doubles of the source give the same integer for every word count below 2^50.
\<close>

definition approximateTokens :: "string \<Rightarrow> int" where
  "approximateTokens txt = \<lceil>real (length (splitWs txt)) / 0.75\<rceil>"

text \<open>
  \<^verbatim>\<open>RAGPipeline.estimateTokens\<close>: the mean of a character estimate and a word estimate,
  rounded up. The exact mean is \<open>(3 * chars + 16 * words) / 24\<close>; it is an integer only when
  both estimates are integers, which doubles represent exactly, and is otherwise at least
  1/24 away from an integer, so the doubles of the source round up to the same integer.
\<close>

definition estimateTokens :: "string \<Rightarrow> int" where
  "estimateTokens txt =
     (let charCount = length txt;
          wordCount = length (splitWs txt);
          charEstimate = real charCount / 4;
          wordEstimate = real wordCount / 0.75
      in \<lceil>(charEstimate + wordEstimate) / 2\<rceil>)"

section \<open>The chunker\<close>

record chunk_rec =
  docId :: nat
  text' :: string
  position :: nat
  startIndex :: int
  endIndex :: int
  tokenCount :: int

text \<open>
  \<^verbatim>\<open>arr.slice(start)\<close> for an integral start: a negative start counts from the end and is
  clamped at the beginning of the array; \<^verbatim>\<open>-0\<close> is \<^verbatim>\<open>0\<close>, the whole array.
\<close>

definition slice_from :: "int \<Rightarrow> 'a list \<Rightarrow> 'a list" where
  "slice_from start xs =
     (if start < 0 then drop (nat (int (length xs) + start)) xs else drop (nat start) xs)"

text \<open>
  \<^verbatim>\<open>currentChunk.slice(-Math.floor(currentChunk.length * (overlap / chunkSize)))\<close>, called
  on a non-empty \<^verbatim>\<open>currentChunk\<close>. With \<^verbatim>\<open>chunkSize = 0\<close> the quotient is an infinity or NaN
  in the source: \<^verbatim>\<open>slice(-Infinity)\<close> and \<^verbatim>\<open>slice(NaN)\<close> keep the whole array,
  \<^verbatim>\<open>slice(Infinity)\<close> keeps nothing. Otherwise the product is an exact real, where the
  source rounds the quotient and the product to doubles. At the defaults, 200 and 800, the
  quotient is 0.25 and the product is exact in doubles, so the two agree; at other sizes
  they can differ by one word, and the properties of the chunker below are stated at the
  defaults.
\<close>

definition overlapSlice :: "int \<Rightarrow> int \<Rightarrow> string list \<Rightarrow> string list" where
  "overlapSlice chunkSize overlap currentChunk =
     (if chunkSize = 0 then (if overlap < 0 then [] else currentChunk)
      else
        let overlapWords = \<lfloor>real (length currentChunk) * (real_of_int overlap / real_of_int chunkSize)\<rfloor>
        in slice_from (- overlapWords) currentChunk)"

text \<open>
  The state of the \<^verbatim>\<open>for\<close> loop of \<^verbatim>\<open>chunkText\<close>: the chunks pushed so far, the words of
  the chunk being filled, its token count and the next position.
\<close>

record chunker_state =
  chunks_out :: "chunk_rec list"
  currentChunk :: "string list"
  currentTokenCount :: int
  position_next :: nat

text \<open>One run of the loop body for \<^verbatim>\<open>words[i] = word\<close>.\<close>

definition chunkStep :: "nat \<Rightarrow> int \<Rightarrow> int \<Rightarrow> nat \<Rightarrow> string \<Rightarrow> chunker_state \<Rightarrow> chunker_state" where
  "chunkStep d chunkSize overlap i word st =
     (let wordTokens = approximateTokens word in
      if currentTokenCount st + wordTokens > chunkSize \<and> length (currentChunk st) > 0 then
        let saved = \<lparr>docId = d, text' = joinSp (currentChunk st), position = position_next st,
                     startIndex = int i - int (length (currentChunk st)), endIndex = int i,
                     tokenCount = currentTokenCount st\<rparr>;
            kept = overlapSlice chunkSize overlap (currentChunk st)
        in \<lparr>chunks_out = chunks_out st @ [saved],
            currentChunk = kept @ [word],
            currentTokenCount = approximateTokens (joinSp kept) + wordTokens,
            position_next = position_next st + 1\<rparr>
      else
        st\<lparr>currentChunk := currentChunk st @ [word],
           currentTokenCount := currentTokenCount st + wordTokens\<rparr>)"

fun chunkLoop :: "nat \<Rightarrow> int \<Rightarrow> int \<Rightarrow> nat \<Rightarrow> string list \<Rightarrow> chunker_state \<Rightarrow> chunker_state" where
  "chunkLoop d chunkSize overlap i [] st = st"
| "chunkLoop d chunkSize overlap i (word # rest) st =
     chunkLoop d chunkSize overlap (i + 1) rest (chunkStep d chunkSize overlap i word st)"

definition chunkText :: "string \<Rightarrow> nat \<Rightarrow> int \<Rightarrow> int \<Rightarrow> chunk_rec list" where
  "chunkText txt d chunkSize overlap =
     (let words = splitWs txt;
          st = chunkLoop d chunkSize overlap 0 words
                 \<lparr>chunks_out = [], currentChunk = [], currentTokenCount = 0, position_next = 0\<rparr>
      in if length (currentChunk st) > 0 then
           chunks_out st @
             [\<lparr>docId = d, text' = joinSp (currentChunk st), position = position_next st,
               startIndex = int (length words) - int (length (currentChunk st)),
               endIndex = int (length words), tokenCount = currentTokenCount st\<rparr>]
         else chunks_out st)"

text \<open>The defaults of the signature: \<^verbatim>\<open>chunkText(text, docId, chunkSize = 800, overlap = 200)\<close>.\<close>

definition chunkTextDefault :: "string \<Rightarrow> nat \<Rightarrow> chunk_rec list" where
  "chunkTextDefault txt d = chunkText txt d 800 200"


text \<open>
  What the properties of the chunker are stated with. A chunk covers the word at index
  \<open>k\<close> when \<open>k\<close> lies in its range of word indices and its text is the words of that
  range joined by single spaces. The total length is the sum of the lengths of the chunk
  texts. A text is single-spaced when no two whitespace characters are adjacent in it.
\<close>

definition covers :: "chunk_rec \<Rightarrow> string list \<Rightarrow> nat \<Rightarrow> bool" where
  "covers c words k =
     (0 \<le> startIndex c \<and> startIndex c \<le> int k \<and> int k < endIndex c \<and> endIndex c \<le> int (length words) \<and>
      text' c = joinSp (take (nat (endIndex c - startIndex c)) (drop (nat (startIndex c)) words)))"

definition totalLength :: "chunk_rec list \<Rightarrow> nat" where
  "totalLength cs = (\<Sum>c\<leftarrow>cs. length (text' c))"

fun singleSpaced :: "string \<Rightarrow> bool" where
  "singleSpaced (a # b # cs) = (\<not> (isSpace a \<and> isSpace b) \<and> singleSpaced (b # cs))"
| "singleSpaced cs = True"

text \<open>
  Two invariants of the loop of \<^verbatim>\<open>chunkText\<close> after \<open>i\<close> words: the current chunk is the
  last words read and every earlier word is covered by a saved chunk or lies in the
  current one; the saved texts and the current chunk together are at least as long as the
  words read so far, joined by single spaces.
\<close>

definition chunk_inv :: "string list \<Rightarrow> nat \<Rightarrow> chunker_state \<Rightarrow> bool" where
  "chunk_inv words i st =
     (length (currentChunk st) \<le> i \<and>
      currentChunk st = take (length (currentChunk st)) (drop (i - length (currentChunk st)) words) \<and>
      (\<forall>k < i. (\<exists>c \<in> set (chunks_out st). covers c words k) \<or> i - length (currentChunk st) \<le> k))"

definition len_inv :: "string list \<Rightarrow> nat \<Rightarrow> chunker_state \<Rightarrow> bool" where
  "len_inv words i st =
     ((0 < i \<longrightarrow> currentChunk st \<noteq> []) \<and>
      length (joinSp (take i words)) \<le> totalLength (chunks_out st) + length (joinSp (currentChunk st)))"

section \<open>The embedder: similarity and ranking\<close>

text \<open>
  The errors the modelled code raises: the dimension check of \<^verbatim>\<open>cosineSimilarity\<close>, a
  property read on \<^verbatim>\<open>undefined\<close>, and a failure of the embedding model.
\<close>

datatype error = DimensionMismatch | TypeError | EmbedFailed

text \<open>
  Numbers are exact reals where the source has doubles. The source rounds after every
  operation and can produce NaN, which no comparison exceeds; the reals do neither. The two
  agree where every intermediate value is computed without rounding, as for the unit
  vectors evaluated below, and they can differ elsewhere, so which candidate a ranking
  puts first is stated below only at such inputs.
\<close>

definition cosineSimilarity :: "real list \<Rightarrow> real list \<Rightarrow> error + real" where
  "cosineSimilarity vec1 vec2 =
     (if length vec1 \<noteq> length vec2 then Inl DimensionMismatch
      else
        let dotProduct = (\<Sum>(a, b)\<leftarrow>zip vec1 vec2. a * b);
            norm1 = sqrt (\<Sum>a\<leftarrow>vec1. a * a);
            norm2 = sqrt (\<Sum>b\<leftarrow>vec2. b * b)
        in if norm1 = 0 \<or> norm2 = 0 then Inr 0 else Inr (dotProduct / (norm1 * norm2)))"

text \<open>The records of the document, chunk and vector object stores.\<close>

record doc_rec =
  doc_id :: nat
  name :: string
  dtype :: string
  content :: string

record stored_chunk = chunk_rec +
  chunk_id :: nat

record vector_rec =
  vec_id :: nat
  chunkId :: nat
  blob :: "real list"
  vec_dimensions :: nat

text \<open>
  An entry of \<^verbatim>\<open>vectorsWithScores\<close>. \<^verbatim>\<open>document\<close> is \<^verbatim>\<open>undefined\<close> when the chunk's
  document is not in the store; \<^verbatim>\<open>index\<close> is set by \<^verbatim>\<open>findTopK\<close> only.
\<close>

record search_result =
  vector :: "real list"
  score :: real
  chunk :: stored_chunk
  document :: "doc_rec option"
  hit_chunkId :: nat
  index :: "nat option"

text \<open>\<^verbatim>\<open>arr.slice(0, k)\<close> for an integral k: a negative k counts from the end.\<close>

definition slice_upto :: "int \<Rightarrow> 'a list \<Rightarrow> 'a list" where
  "slice_upto k xs =
     (if k < 0 then take (nat (int (length xs) + k)) xs else take (nat k) xs)"

text \<open>The \<^verbatim>\<open>vectors.map\<close> of \<^verbatim>\<open>findTopK\<close> with the cosine metric.\<close>

fun scoreAll :: "real list \<Rightarrow> search_result list \<Rightarrow> nat \<Rightarrow> error + search_result list" where
  "scoreAll q [] i = Inr []"
| "scoreAll q (vec # rest) i =
     (case cosineSimilarity q (vector vec) of
        Inl e \<Rightarrow> Inl e
      | Inr sc \<Rightarrow>
          (case scoreAll q rest (i + 1) of
             Inl e \<Rightarrow> Inl e
           | Inr out \<Rightarrow> Inr (vec\<lparr>index := Some i, score := sc\<rparr> # out)))"

text \<open>
  \<^verbatim>\<open>scores.sort((a, b) => b.score - a.score)\<close> is a stable sort, descending by score:
  \<^const>\<open>sort_key\<close> on the negated score.
\<close>

definition findTopK :: "real list \<Rightarrow> search_result list \<Rightarrow> int \<Rightarrow> error + search_result list" where
  "findTopK q vecs k =
     (case scoreAll q vecs 0 of
        Inl e \<Rightarrow> Inl e
      | Inr scores \<Rightarrow> Inr (slice_upto k (sort_key (\<lambda>r. - score r) scores)))"

text \<open>
  The pair \<^verbatim>\<open>(maxScore, maxIndex)\<close> of \<^verbatim>\<open>mmrRerank\<close>. \<^term>\<open>None\<close> is the initial pair
  \<^verbatim>\<open>(-Infinity, -1)\<close>; every real score is greater than \<^verbatim>\<open>-Infinity\<close>.
\<close>

type_synonym best = "(real \<times> nat) option"

definition exceeds :: "real \<Rightarrow> best \<Rightarrow> bool" where
  "exceeds sc b = (case b of None \<Rightarrow> True | Some (maxScore, maxIndex) \<Rightarrow> sc > maxScore)"

text \<open>The first \<^verbatim>\<open>remaining.forEach\<close>: the candidate most similar to the query.\<close>

fun firstScan :: "real list \<Rightarrow> search_result list \<Rightarrow> nat \<Rightarrow> best \<Rightarrow> error + best" where
  "firstScan q [] i b = Inr b"
| "firstScan q (vec # rest) i b =
     (case cosineSimilarity q (vector vec) of
        Inl e \<Rightarrow> Inl e
      | Inr sc \<Rightarrow> firstScan q rest (i + 1) (if exceeds sc b then Some (sc, i) else b))"

text \<open>The inner \<^verbatim>\<open>selected.forEach\<close>; \<^verbatim>\<open>maxSim\<close> starts at 0.\<close>

fun maxSimLoop :: "real list \<Rightarrow> search_result list \<Rightarrow> real \<Rightarrow> error + real" where
  "maxSimLoop cv [] maxSim = Inr maxSim"
| "maxSimLoop cv (selectedDoc # rest) maxSim =
     (case cosineSimilarity cv (vector selectedDoc) of
        Inl e \<Rightarrow> Inl e
      | Inr sim \<Rightarrow> maxSimLoop cv rest (if sim > maxSim then sim else maxSim))"

text \<open>The \<^verbatim>\<open>remaining.forEach\<close> inside the \<^verbatim>\<open>while\<close> loop.\<close>

fun mmrScan ::
  "real list \<Rightarrow> real \<Rightarrow> search_result list \<Rightarrow> search_result list \<Rightarrow> nat \<Rightarrow> best \<Rightarrow> error + best" where
  "mmrScan q lam selected [] i b = Inr b"
| "mmrScan q lam selected (candidate # rest) i b =
     (case cosineSimilarity q (vector candidate) of
        Inl e \<Rightarrow> Inl e
      | Inr relevance \<Rightarrow>
          (case maxSimLoop (vector candidate) selected 0 of
             Inl e \<Rightarrow> Inl e
           | Inr maxSim \<Rightarrow>
               let mmrScore = lam * relevance - (1 - lam) * maxSim
               in mmrScan q lam selected rest (i + 1)
                    (if exceeds mmrScore b then Some (mmrScore, i) else b)))"

text \<open>\<^verbatim>\<open>remaining.splice(maxIndex, 1)\<close>.\<close>

definition splice1 :: "nat \<Rightarrow> 'a list \<Rightarrow> 'a list" where
  "splice1 i xs = take i xs @ drop (Suc i) xs"

lemma mmrScan_index:
  "mmrScan q lam selected remaining i b = Inr (Some (m, j)) \<Longrightarrow>
   b = Some (m, j) \<or> (i \<le> j \<and> j < i + length remaining)"
proof (induction remaining arbitrary: i b)
  case Nil
  then show ?case by simp
next
  case (Cons c cs)
  from Cons.prems obtain b' where
    step: "mmrScan q lam selected cs (i + 1) b' = Inr (Some (m, j))" and
    b': "b' = b \<or> (\<exists>x. b' = Some (x, i))"
    by (auto simp: Let_def split: sum.splits if_splits)
  from Cons.IH [OF step] b' show ?case by auto
qed

text \<open>
  The \<^verbatim>\<open>while\<close> loop of \<^verbatim>\<open>mmrRerank\<close>. The index found by the scan is within
  \<^verbatim>\<open>remaining\<close>, so each round removes one candidate.
\<close>

function mmrLoop ::
  "real list \<Rightarrow> real \<Rightarrow> int \<Rightarrow> search_result list \<Rightarrow> search_result list \<Rightarrow> error + search_result list" where
  "mmrLoop q lam k selected remaining =
     (if int (length selected) < k \<and> length remaining > 0 then
        (case mmrScan q lam selected remaining 0 None of
           Inl e \<Rightarrow> Inl e
         | Inr None \<Rightarrow> Inr selected
         | Inr (Some (maxScore, maxIndex)) \<Rightarrow>
             mmrLoop q lam k (selected @ [(remaining ! maxIndex)\<lparr>score := maxScore\<rparr>])
               (splice1 maxIndex remaining))
      else Inr selected)"
  by pat_completeness auto
termination
proof (relation "measure (\<lambda>(q, lam, k, selected, remaining). length remaining)", goal_cases)
  case 1
  show ?case by simp
next
  case (2 q lam k selected remaining x2 x2a x y)
  then have "mmrScan q lam selected remaining 0 None = Inr (Some (x, y))" by simp
  from mmrScan_index [OF this] have "y < length remaining" by simp
  then show ?case by (simp add: splice1_def)
qed

declare mmrLoop.simps [simp del]

definition mmrRerank ::
  "real list \<Rightarrow> search_result list \<Rightarrow> real \<Rightarrow> int \<Rightarrow> error + search_result list" where
  "mmrRerank q vecs lam k =
     (if length vecs = 0 then Inr []
      else
        (case firstScan q vecs 0 None of
           Inl e \<Rightarrow> Inl e
         | Inr None \<Rightarrow> mmrLoop q lam k [] vecs
         | Inr (Some (maxScore, maxIndex)) \<Rightarrow>
             mmrLoop q lam k [(vecs ! maxIndex)\<lparr>score := maxScore\<rparr>] (splice1 maxIndex vecs)))"

text \<open>A candidate with the given vector and chunk id, to evaluate on.\<close>

definition cand :: "real list \<Rightarrow> nat \<Rightarrow> search_result" where
  "cand v n =
     \<lparr>vector = v, score = 0,
      chunk = \<lparr>docId = n, text' = ''chunk'', position = 0, startIndex = 0, endIndex = 1,
                tokenCount = 2, chunk_id = n\<rparr>,
      document = None, hit_chunkId = n, index = None\<rparr>"

section \<open>The vector store\<close>

text \<open>
  The \<^verbatim>\<open>config\<close> record of the metadata store and the four object stores. An object
  store is the list of its records in key order, as \<^verbatim>\<open>getAll\<close> returns them.
\<close>

record config =
  cfg_chunkSize :: int
  cfg_chunkOverlap :: int
  cfg_dimensions :: "nat option"
  totalDocuments :: int
  totalChunks :: int

record store =
  documents :: "doc_rec list"
  chunks :: "stored_chunk list"
  vectors :: "vector_rec list"
  metadata :: "config option"

text \<open>\<^verbatim>\<open>IDBHelper.get\<close> and \<^verbatim>\<open>IDBHelper.delete\<close> on a store with the given key path.\<close>

definition idb_get :: "('r \<Rightarrow> nat) \<Rightarrow> 'r list \<Rightarrow> nat \<Rightarrow> 'r option" where
  "idb_get key rows k = find (\<lambda>r. key r = k) rows"

definition idb_delete :: "('r \<Rightarrow> nat) \<Rightarrow> 'r list \<Rightarrow> nat \<Rightarrow> 'r list" where
  "idb_delete key rows k = filter (\<lambda>r. key r \<noteq> k) rows"

text \<open>The state the metadata store is given by \<^verbatim>\<open>initialize\<close>.\<close>

definition initialStore :: store where
  "initialStore =
     \<lparr>documents = [], chunks = [], vectors = [],
      metadata = Some \<lparr>cfg_chunkSize = 800, cfg_chunkOverlap = 200, cfg_dimensions = None,
                        totalDocuments = 0, totalChunks = 0\<rparr>\<rparr>"

record delete_result =
  deletedChunks :: nat

text \<open>The body of the \<^verbatim>\<open>for (const chunkId of chunkIds)\<close> loop of \<^verbatim>\<open>deleteDocument\<close>.\<close>

definition deleteChunkAndVector :: "nat \<Rightarrow> store \<Rightarrow> store" where
  "deleteChunkAndVector cid s =
     s\<lparr>chunks := idb_delete chunk_id (chunks s) cid,
       vectors := idb_delete vec_id (vectors s) cid\<rparr>"

text \<open>
  \<^verbatim>\<open>deleteDocument\<close> returns the store it leaves and either its result or the error it
  raised: reading \<^verbatim>\<open>config.totalDocuments\<close> raises when the metadata store has no
  \<^verbatim>\<open>config\<close>, after the deletions are done.
\<close>

definition deleteDocument :: "nat \<Rightarrow> store \<Rightarrow> store \<times> (error + delete_result)" where
  "deleteDocument d s =
     (let chunkIds = map chunk_id (filter (\<lambda>c. docId c = d) (chunks s));
          s1 = fold deleteChunkAndVector chunkIds s;
          s2 = s1\<lparr>documents := idb_delete doc_id (documents s1) d\<rparr>
      in case metadata s2 of
           None \<Rightarrow> (s2, Inl TypeError)
         | Some cfg \<Rightarrow>
             (s2\<lparr>metadata := Some (cfg\<lparr>totalDocuments := totalDocuments cfg - 1,
                                       totalChunks := totalChunks cfg - int (length chunkIds)\<rparr>)\<rparr>,
              Inr \<lparr>deletedChunks = length chunkIds\<rparr>))"

record query_options =
  topK :: int
  threshold :: real
  useMMR :: bool
  mmrLambda :: real

text \<open>
  The \<^verbatim>\<open>for (const record of allVectors)\<close> loop of \<^verbatim>\<open>queryVector\<close>. A vector whose chunk
  is not in the chunk store makes \<^verbatim>\<open>chunk.docId\<close> raise.
\<close>

fun scanVectors :: "store \<Rightarrow> real list \<Rightarrow> real \<Rightarrow> vector_rec list \<Rightarrow> error + search_result list" where
  "scanVectors s q th [] = Inr []"
| "scanVectors s q th (r # rest) =
     (case cosineSimilarity q (blob r) of
        Inl e \<Rightarrow> Inl e
      | Inr sc \<Rightarrow>
          if sc \<ge> th then
            (case idb_get chunk_id (chunks s) (chunkId r) of
               None \<Rightarrow> Inl TypeError
             | Some ch \<Rightarrow>
                 (case scanVectors s q th rest of
                    Inl e \<Rightarrow> Inl e
                  | Inr out \<Rightarrow>
                      Inr (\<lparr>vector = blob r, score = sc, chunk = ch,
                            document = idb_get doc_id (documents s) (docId ch),
                            hit_chunkId = chunkId r, index = None\<rparr> # out)))
          else scanVectors s q th rest)"

text \<open>
  \<^verbatim>\<open>queryVector\<close>; the embedding model is the parameter \<open>embedder\<close>. \<^verbatim>\<open>search\<close> returns
  these results with the time they took.
\<close>

definition queryVector ::
  "(string \<Rightarrow> error + real list) \<Rightarrow> string \<Rightarrow> query_options \<Rightarrow> store \<Rightarrow> error + search_result list" where
  "queryVector embedder queryText opts s =
     (case embedder queryText of
        Inl e \<Rightarrow> Inl e
      | Inr q \<Rightarrow>
          (case scanVectors s q (threshold opts) (vectors s) of
             Inl e \<Rightarrow> Inl e
           | Inr vectorsWithScores \<Rightarrow>
               if useMMR opts \<and> length vectorsWithScores > 0
               then mmrRerank q vectorsWithScores (mmrLambda opts) (topK opts)
               else findTopK q vectorsWithScores (topK opts)))"

definition search ::
  "(string \<Rightarrow> error + real list) \<Rightarrow> string \<Rightarrow> query_options \<Rightarrow> store \<Rightarrow> error + search_result list" where
  "search embedder queryText opts s = queryVector embedder queryText opts s"

text \<open>
  A store to evaluate on: two documents, the first with two chunks and the second with one,
  and an embedding model that maps every text to the first unit vector.
\<close>

definition exampleStore :: store where
  "exampleStore =
     \<lparr>documents =
        [\<lparr>doc_id = 1, name = ''cats'', dtype = ''text'', content = ''cats purr loudly''\<rparr>,
         \<lparr>doc_id = 2, name = ''dogs'', dtype = ''text'', content = ''dogs bark''\<rparr>],
      chunks =
        [\<lparr>docId = 1, text' = ''cats purr'', position = 0, startIndex = 0, endIndex = 2,
          tokenCount = 4, chunk_id = 1\<rparr>,
         \<lparr>docId = 1, text' = ''purr loudly'', position = 1, startIndex = 1, endIndex = 3,
          tokenCount = 4, chunk_id = 2\<rparr>,
         \<lparr>docId = 2, text' = ''dogs bark'', position = 0, startIndex = 0, endIndex = 2,
          tokenCount = 4, chunk_id = 3\<rparr>],
      vectors =
        [\<lparr>vec_id = 1, chunkId = 1, blob = [1, 0], vec_dimensions = 2\<rparr>,
         \<lparr>vec_id = 2, chunkId = 2, blob = [0, 1], vec_dimensions = 2\<rparr>,
         \<lparr>vec_id = 3, chunkId = 3, blob = [1, 0], vec_dimensions = 2\<rparr>],
      metadata = Some \<lparr>cfg_chunkSize = 800, cfg_chunkOverlap = 200, cfg_dimensions = Some 2,
                        totalDocuments = 2, totalChunks = 3\<rparr>\<rparr>"

definition exampleEmbedder :: "string \<Rightarrow> error + real list" where
  "exampleEmbedder txt = Inr [1, 0]"

section \<open>The context assembler\<close>

text \<open>
  The merged \<^verbatim>\<open>config\<close> of \<^verbatim>\<open>retrieveContext\<close>: the search options and the two options of
  the assembler. \<^term>\<open>defaultOptions\<close> below is \<^verbatim>\<open>this.defaultOptions\<close>.
\<close>

record rag_options = query_options +
  maxContextTokens :: int
  includeMetadata :: bool

text \<open>An entry of \<^verbatim>\<open>contextChunks\<close>.\<close>

record context_chunk =
  cc_text :: string
  cc_score :: real
  cc_position :: nat
  cc_docId :: nat
  docName :: string

text \<open>
  What \<^verbatim>\<open>retrieveContext\<close> returns. \<^verbatim>\<open>contextText\<close> and \<^verbatim>\<open>sources\<close>, which the source
  formats from \<^verbatim>\<open>contextChunks\<close>, are represented by that list itself.
\<close>

record retrieval =
  includedChunks :: "context_chunk list"
  tokensUsed :: int
  chunksUsed :: nat

text \<open>The options passed to \<^verbatim>\<open>vectorStore.search\<close>: twice \<^verbatim>\<open>topK\<close> candidates.\<close>

definition searchOptions :: "rag_options \<Rightarrow> query_options" where
  "searchOptions cfg =
     \<lparr>topK = topK cfg * 2, threshold = threshold cfg, useMMR = useMMR cfg,
      mmrLambda = mmrLambda cfg\<rparr>"

text \<open>
  The \<^verbatim>\<open>for (const result of searchResults.results)\<close> loop. The budget test comes before
  the push; \<^verbatim>\<open>doc.id\<close> raises when the result has no document; the \<^verbatim>\<open>topK\<close> test comes
  after the push.
\<close>

fun contextLoop ::
  "rag_options \<Rightarrow> search_result list \<Rightarrow> context_chunk list \<Rightarrow> int \<Rightarrow> error + context_chunk list \<times> int" where
  "contextLoop cfg [] contextChunks currentTokens = Inr (contextChunks, currentTokens)"
| "contextLoop cfg (result # rest) contextChunks currentTokens =
     (let chunkTokens = estimateTokens (text' (chunk result)) in
      if currentTokens + chunkTokens > maxContextTokens cfg then Inr (contextChunks, currentTokens)
      else
        (case document result of
           None \<Rightarrow> Inl TypeError
         | Some doc \<Rightarrow>
             let contextChunks' = contextChunks @
                   [\<lparr>cc_text = text' (chunk result), cc_score = score result,
                     cc_position = position (chunk result), cc_docId = doc_id doc,
                     docName = name doc\<rparr>];
                 currentTokens' = currentTokens + chunkTokens
             in if int (length contextChunks') \<ge> topK cfg then Inr (contextChunks', currentTokens')
                else contextLoop cfg rest contextChunks' currentTokens'))"

definition retrieveContext ::
  "(string \<Rightarrow> error + real list) \<Rightarrow> string \<Rightarrow> rag_options \<Rightarrow> store \<Rightarrow> error + retrieval" where
  "retrieveContext embedder queryText cfg s =
     (case search embedder queryText (searchOptions cfg) s of
        Inl e \<Rightarrow> Inl e
      | Inr results \<Rightarrow>
          if length results = 0 then Inr \<lparr>includedChunks = [], tokensUsed = 0, chunksUsed = 0\<rparr>
          else
            (case contextLoop cfg results [] 0 of
               Inl e \<Rightarrow> Inl e
             | Inr (contextChunks, currentTokens) \<Rightarrow>
                 Inr \<lparr>includedChunks = contextChunks, tokensUsed = currentTokens,
                      chunksUsed = length contextChunks\<rparr>))"

definition defaultOptions :: rag_options where
  "defaultOptions =
     \<lparr>topK = 5, threshold = 0.3, useMMR = True, mmrLambda = 0.5,
      maxContextTokens = 2000, includeMetadata = True\<rparr>"

text \<open>The sum of the estimated token costs of the chunks of some results.\<close>

definition costs :: "search_result list \<Rightarrow> int" where
  "costs rs = (\<Sum>h\<leftarrow>rs. estimateTokens (text' (chunk h)))"

text \<open>The two results a search for the first unit vector finds in \<^term>\<open>exampleStore\<close>.\<close>

definition hit1 :: search_result where
  "hit1 = \<lparr>vector = [1, 0], score = 1,
           chunk = \<lparr>docId = 1, text' = ''cats purr'', position = 0, startIndex = 0, endIndex = 2,
                     tokenCount = 4, chunk_id = 1\<rparr>,
           document = Some \<lparr>doc_id = 1, name = ''cats'', dtype = ''text'', content = ''cats purr loudly''\<rparr>,
           hit_chunkId = 1, index = None\<rparr>"

definition hit3 :: search_result where
  "hit3 = \<lparr>vector = [1, 0], score = 1,
           chunk = \<lparr>docId = 2, text' = ''dogs bark'', position = 0, startIndex = 0, endIndex = 2,
                     tokenCount = 4, chunk_id = 3\<rparr>,
           document = Some \<lparr>doc_id = 2, name = ''dogs'', dtype = ''text'', content = ''dogs bark''\<rparr>,
           hit_chunkId = 3, index = None\<rparr>"

section \<open>The streaming generation controller\<close>

text \<open>
  \<^verbatim>\<open>ChatEngine\<close> in loader.js. There are two abort signals: the one of the
  \<^verbatim>\<open>AbortController\<close> the engine creates for a session without \<^verbatim>\<open>options.signal\<close>, and
  the caller's, passed as \<^verbatim>\<open>options.signal\<close>. \<^verbatim>\<open>this.abortController\<close> is either that
  \<^verbatim>\<open>AbortController\<close>, which has an \<^verbatim>\<open>abort\<close> method, or the wrapper \<^verbatim>\<open>{ signal }\<close>, which
  has none.
\<close>

datatype signal_ref = OwnSignal | ExternalSignal

record abort_ctl =
  signal :: signal_ref
  hasAbort :: bool

text \<open>
  What \<^verbatim>\<open>onDone\<close> is given (the times are left out), and the calls made to the three
  callbacks of the caller.
\<close>

record done_stats =
  done_text :: string
  tokens :: nat
  aborted :: bool

datatype callback =
    OnToken string nat string
  | OnDone done_stats
  | OnError string

text \<open>
  The engine with the part of the world it acts on: the \<^verbatim>\<open>aborted\<close> flag of each signal,
  the \<^verbatim>\<open>abort()\<close> calls the engine has made, by the signal they fire, and the callback
  calls it has made, both in order.
\<close>

record engine =
  abortController :: "abort_ctl option"
  ownAbortController :: bool
  isGenerating :: bool
  stopSequences :: "string list"
  pipelineLoaded :: bool
  ownSignalAborted :: bool
  externalSignalAborted :: bool
  abortCalls :: "signal_ref list"
  callbacks :: "callback list"

definition signalAborted :: "engine \<Rightarrow> signal_ref \<Rightarrow> bool" where
  "signalAborted s r = (case r of OwnSignal \<Rightarrow> ownSignalAborted s | ExternalSignal \<Rightarrow> externalSignalAborted s)"

text \<open>\<^verbatim>\<open>this.abortController?.signal?.aborted\<close>.\<close>

definition ctlAborted :: "engine \<Rightarrow> bool" where
  "ctlAborted s = (case abortController s of None \<Rightarrow> False | Some c \<Rightarrow> signalAborted s (signal c))"

text \<open>\<^verbatim>\<open>this.abortController.abort()\<close>: fires the controller's signal.\<close>

definition invokeAbort :: "abort_ctl \<Rightarrow> engine \<Rightarrow> engine" where
  "invokeAbort c s =
     (case signal c of
        OwnSignal \<Rightarrow> s\<lparr>ownSignalAborted := True, abortCalls := abortCalls s @ [OwnSignal]\<rparr>
      | ExternalSignal \<Rightarrow>
          s\<lparr>externalSignalAborted := True, abortCalls := abortCalls s @ [ExternalSignal]\<rparr>)"

definition stop :: "engine \<Rightarrow> engine" where
  "stop s =
     (let s1 =
        (case abortController s of
           None \<Rightarrow> s
         | Some c \<Rightarrow>
             if ownAbortController s \<and> hasAbort c then
               (if \<not> signalAborted s (signal c) then invokeAbort c s else s)
             else s)
      in s1\<lparr>isGenerating := False, ownAbortController := False\<rparr>)"

text \<open>\<^verbatim>\<open>text.indexOf(seq)\<close>, \<^verbatim>\<open>text.includes(seq)\<close>, and the two stop-sequence helpers.\<close>

fun indexOfFrom :: "string \<Rightarrow> string \<Rightarrow> nat \<Rightarrow> nat option" where
  "indexOfFrom [] sq i = (if sq = [] then Some i else None)"
| "indexOfFrom (c # cs) sq i =
     (if take (length sq) (c # cs) = sq then Some i else indexOfFrom cs sq (i + 1))"

definition indexOf :: "string \<Rightarrow> string \<Rightarrow> nat option" where
  "indexOf txt sq = indexOfFrom txt sq 0"

definition includes_str :: "string \<Rightarrow> string \<Rightarrow> bool" where
  "includes_str txt sq = (indexOf txt sq \<noteq> None)"

definition shouldStop :: "engine \<Rightarrow> string \<Rightarrow> bool" where
  "shouldStop s txt = list_ex (\<lambda>sq. includes_str txt sq) (stopSequences s)"

fun trimLoop :: "string list \<Rightarrow> string \<Rightarrow> string" where
  "trimLoop [] txt = txt"
| "trimLoop (sq # rest) txt =
     (case indexOf txt sq of Some i \<Rightarrow> take i txt | None \<Rightarrow> trimLoop rest txt)"

definition trimStopSequence :: "engine \<Rightarrow> string \<Rightarrow> string" where
  "trimStopSequence s txt = trimLoop (stopSequences s) txt"

text \<open>
  The options of \<^verbatim>\<open>generateStream\<close> that the controller itself reads: whether a signal
  and each callback were supplied, and \<^verbatim>\<open>params.maxLength || 4096\<close>. The messages and the
  sampling parameters go to the model.
\<close>

record gen_options =
  signalGiven :: bool
  hasOnToken :: bool
  hasOnDone :: bool
  hasOnError :: bool
  maxLength :: nat

text \<open>The variables local to one call: \<^verbatim>\<open>generatedText\<close> and \<^verbatim>\<open>tokenCount\<close>.\<close>

record session =
  generatedText :: string
  tokenCount' :: nat

definition newSession :: session where
  "newSession = \<lparr>generatedText = [], tokenCount' = 0\<rparr>"

text \<open>
  What happens while the call awaits the model: the model streams a piece of text to
  \<^verbatim>\<open>callback_function\<close>, someone calls \<^verbatim>\<open>stop()\<close>, the timer set with \<^verbatim>\<open>maxTime\<close> fires,
  or the caller fires its own signal. Then the awaited call resolves with the final text or
  is rejected with an error of the given name.
\<close>

datatype event = Token string | StopCall | TimeoutFires | CallerAborts

datatype outcome = Resolves string | Rejects string

datatype gen_error = Busy | NotLoaded | ModelError string

definition invoke :: "bool \<Rightarrow> callback \<Rightarrow> engine \<Rightarrow> engine" where
  "invoke supplied c s = (if supplied then s\<lparr>callbacks := callbacks s @ [c]\<rparr> else s)"

text \<open>The \<^verbatim>\<open>callback_function\<close> of the streamer.\<close>

definition callback_function :: "gen_options \<Rightarrow> string \<Rightarrow> engine \<times> session \<Rightarrow> engine \<times> session" where
  "callback_function opts txt st =
     (let s = fst st; loc = snd st in
      if ctlAborted s then (s, loc)
      else
        let generated = generatedText loc @ txt;
            count = tokenCount' loc + 1
        in if shouldStop s generated then
             (stop s, \<lparr>generatedText = trimStopSequence s generated, tokenCount' = count\<rparr>)
           else if length generated > maxLength opts then
             (stop s, \<lparr>generatedText = generated, tokenCount' = count\<rparr>)
           else
             (invoke (hasOnToken opts) (OnToken txt count generated) s,
              \<lparr>generatedText = generated, tokenCount' = count\<rparr>))"

text \<open>The function given to \<^verbatim>\<open>setTimeout\<close>.\<close>

definition timeoutHandler :: "gen_options \<Rightarrow> engine \<Rightarrow> engine" where
  "timeoutHandler opts s =
     (if isGenerating s then invoke (hasOnError opts) (OnError ''Generation timeout'') (stop s)
      else s)"

definition handleEvent :: "gen_options \<Rightarrow> event \<Rightarrow> engine \<times> session \<Rightarrow> engine \<times> session" where
  "handleEvent opts e st =
     (case e of
        Token txt \<Rightarrow> callback_function opts txt st
      | StopCall \<Rightarrow> (stop (fst st), snd st)
      | TimeoutFires \<Rightarrow> (timeoutHandler opts (fst st), snd st)
      | CallerAborts \<Rightarrow> ((fst st)\<lparr>externalSignalAborted := True\<rparr>, snd st))"

fun runEvents :: "gen_options \<Rightarrow> event list \<Rightarrow> engine \<times> session \<Rightarrow> engine \<times> session" where
  "runEvents opts [] st = st"
| "runEvents opts (e # es) st = runEvents opts es (handleEvent opts e st)"

text \<open>
  The assignments before the \<^verbatim>\<open>try\<close>: the session is marked active and the controller is
  set up. A new \<^verbatim>\<open>AbortController\<close> has a signal that has not fired.
\<close>

definition startSession :: "gen_options \<Rightarrow> engine \<Rightarrow> engine" where
  "startSession opts s =
     (if signalGiven opts then
        s\<lparr>isGenerating := True, ownAbortController := False,
          abortController := Some \<lparr>signal = ExternalSignal, hasAbort = False\<rparr>\<rparr>
      else
        s\<lparr>isGenerating := True, ownAbortController := True,
          abortController := Some \<lparr>signal = OwnSignal, hasAbort = True\<rparr>,
          ownSignalAborted := False\<rparr>)"

text \<open>The \<^verbatim>\<open>finally\<close> block.\<close>

definition finallyBlock :: "engine \<Rightarrow> engine" where
  "finallyBlock s = s\<lparr>isGenerating := False, abortController := None, ownAbortController := False\<rparr>"

text \<open>
  \<^verbatim>\<open>generateStream\<close>: the engine it leaves, and the text it returns or the error it throws.
\<close>

definition generateStream ::
  "gen_options \<Rightarrow> event list \<Rightarrow> outcome \<Rightarrow> engine \<Rightarrow> engine \<times> (gen_error + string)" where
  "generateStream opts events result s =
     (if isGenerating s then (s, Inl Busy)
      else if \<not> pipelineLoaded s then (s, Inl NotLoaded)
      else
        let st = runEvents opts events (startSession opts s, newSession);
            s2 = fst st; loc = snd st
        in case result of
             Resolves finalText \<Rightarrow>
               (finallyBlock
                  (invoke (hasOnDone opts)
                     (OnDone \<lparr>done_text = finalText, tokens = tokenCount' loc, aborted = False\<rparr>) s2),
                Inr finalText)
           | Rejects errorName \<Rightarrow>
               if errorName = ''AbortError'' \<or> ctlAborted s2 then
                 (finallyBlock
                    (invoke (hasOnDone opts)
                       (OnDone \<lparr>done_text = generatedText loc, tokens = tokenCount' loc,
                                aborted = True\<rparr>) s2),
                  Inr (generatedText loc))
               else
                 (finallyBlock (invoke (hasOnError opts) (OnError errorName) s2),
                  Inl (ModelError errorName)))"

text \<open>An engine as its constructor leaves it, with the model loaded.\<close>

definition idleEngine :: engine where
  "idleEngine =
     \<lparr>abortController = None, ownAbortController = False, isGenerating = False,
      stopSequences = [''</s>'', [CHR 0x0A, CHR 0x0A] @ ''User:'', [CHR 0x0A, CHR 0x0A] @ ''Human:'',
                       ''[END]''],
      pipelineLoaded = True, ownSignalAborted = False, externalSignalAborted = False,
      abortCalls = [], callbacks = []\<rparr>"

text \<open>Whether a callback call is a call of \<^verbatim>\<open>onError\<close>.\<close>

definition isOnError :: "callback \<Rightarrow> bool" where
  "isOnError c = (case c of OnError msg \<Rightarrow> True | _ \<Rightarrow> False)"

text \<open>
  The controller of a session started with the caller's signal, and the controller of a
  session that created its own: it still owns the controller, or has fired its signal.
\<close>

definition borrowed :: "engine \<Rightarrow> bool" where
  "borrowed s = (abortController s = Some \<lparr>signal = ExternalSignal, hasAbort = False\<rparr>)"

definition owned :: "engine \<Rightarrow> bool" where
  "owned s = (abortController s = Some \<lparr>signal = OwnSignal, hasAbort = True\<rparr> \<and>
              (ownAbortController s \<or> ownSignalAborted s))"

text \<open>Options without and with a signal of the caller, all callbacks supplied.\<close>

definition ownOptions :: gen_options where
  "ownOptions = \<lparr>signalGiven = False, hasOnToken = True, hasOnDone = True, hasOnError = True, maxLength = 4096\<rparr>"

definition externalOptions :: gen_options where
  "externalOptions = \<lparr>signalGiven = True, hasOnToken = True, hasOnDone = True, hasOnError = True, maxLength = 4096\<rparr>"

section \<open>Properties of the estimators\<close>

lemma splitWs_Nil: "splitWs [] = [[]]"
  by (simp add: splitWs.simps)

lemma ceil_div_int:
  fixes a b :: int
  assumes "0 < b"
  shows "- (- a div b) = (a + b - 1) div b"
proof -
  have a: "a = b * (a div b) + a mod b" by simp
  have r: "0 \<le> a mod b" "a mod b < b" using assms by auto
  show ?thesis
  proof (cases "a mod b = 0")
    case True
    with a have a0: "a = b * (a div b)" by simp
    then have "- a = b * (- (a div b)) + 0" by simp
    then have l: "- a div b = - (a div b)"
      using assms int_div_pos_eq[of "- a" b "- (a div b)" 0] by simp
    have "a + b - 1 = b * (a div b) + (b - 1)" using a0 by simp
    then have "(a + b - 1) div b = a div b"
      using assms int_div_pos_eq[of "a + b - 1" b "a div b" "b - 1"] by simp
    with l show ?thesis by simp
  next
    case False
    with r have r': "0 < a mod b" by simp
    from a have "- a = b * (- (a div b) - 1) + (b - a mod b)" by (simp add: algebra_simps)
    then have l: "- a div b = - (a div b) - 1"
      using r r' int_div_pos_eq[of "- a" b "- (a div b) - 1" "b - a mod b"] by simp
    from a have "a + b - 1 = b * (a div b + 1) + (a mod b - 1)" by (simp add: algebra_simps)
    then have "(a + b - 1) div b = a div b + 1"
      using r r' int_div_pos_eq[of "a + b - 1" b "a div b + 1" "a mod b - 1"] by simp
    with l show ?thesis by simp
  qed
qed

lemma approximateTokens_div: "approximateTokens t = (4 * int (length (splitWs t)) + 2) div 3"
proof -
  let ?w = "int (length (splitWs t))"
  have "real (length (splitWs t)) / 0.75 = real_of_int (4 * ?w) / real_of_int 3"
    by simp
  then have "approximateTokens t = \<lceil>real_of_int (4 * ?w) / real_of_int 3\<rceil>"
    unfolding approximateTokens_def by presburger
  also have "\<dots> = - (- (4 * ?w) div 3)"
    by (rule ceiling_divide_eq_div)
  also have "\<dots> = (4 * ?w + 2) div 3"
    by (simp add: ceil_div_int)
  finally show ?thesis .
qed

lemma estimateTokens_div:
  "estimateTokens t = (3 * int (length t) + 16 * int (length (splitWs t)) + 23) div 24"
proof -
  let ?c = "int (length t)" and ?w = "int (length (splitWs t))"
  have "(real (length t) / 4 + real (length (splitWs t)) / 0.75) / 2
        = real_of_int (3 * ?c + 16 * ?w) / real_of_int 24"
    by simp
  then have "estimateTokens t = \<lceil>real_of_int (3 * ?c + 16 * ?w) / real_of_int 24\<rceil>"
    unfolding estimateTokens_def Let_def by presburger
  also have "\<dots> = - (- (3 * ?c + 16 * ?w) div 24)"
    by (rule ceiling_divide_eq_div)
  also have "\<dots> = (3 * ?c + 16 * ?w + 23) div 24"
    by (simp add: ceil_div_int)
  finally show ?thesis .
qed

text \<open>
  C3, as stated: the chunker's estimator and the budgeter's estimator return the same value
  on every text. They do not: on the one-letter text \<^verbatim>\<open>"a"\<close> the chunker's
  \<^verbatim>\<open>Math.ceil(1 / 0.75)\<close> is 2 and the budgeter's \<^verbatim>\<open>Math.ceil((1/4 + 1/0.75) / 2)\<close> is 1.
\<close>

theorem C3_estimators_differ:
  "approximateTokens ''a'' = 2 \<and> estimateTokens ''a'' = 1 \<and>
   approximateTokens ''a'' \<noteq> estimateTokens ''a''"
  by (simp add: approximateTokens_div estimateTokens_div splitWs.simps isSpace_def)

text \<open>
  C3, amended: the two estimators are different functions of the same whitespace split.
  The chunker rounds up \<^verbatim>\<open>words / 0.75\<close>; the budgeter rounds up the mean of \<^verbatim>\<open>chars / 4\<close>
  and that same \<^verbatim>\<open>words / 0.75\<close>. So the budgeter's estimate is at most the chunker's
  when the character estimate is at most the word estimate, at least the chunker's when
  it is at least the word estimate, and the two agree when the two estimates are equal.
\<close>

theorem C3_estimators_ordered:
  "(real (length t) / 4 \<le> real (length (splitWs t)) / 0.75
      \<longrightarrow> estimateTokens t \<le> approximateTokens t) \<and>
   (real (length (splitWs t)) / 0.75 \<le> real (length t) / 4
      \<longrightarrow> approximateTokens t \<le> estimateTokens t)"
  unfolding approximateTokens_def estimateTokens_def Let_def
  by (auto intro!: ceiling_mono)

theorem C3_estimators_ordered_witness:
  "real (length ''lorem ipsum dolo'') / 4 \<le> real (length (splitWs ''lorem ipsum dolo'')) / 0.75 \<and>
   real (length (splitWs ''lorem ipsum dolo'')) / 0.75 \<le> real (length ''lorem ipsum dolo'') / 4 \<and>
   estimateTokens ''lorem ipsum dolo'' = 4 \<and> approximateTokens ''lorem ipsum dolo'' = 4"
  using C3_estimators_ordered [of "''lorem ipsum dolo''"]
  by (simp add: approximateTokens_div estimateTokens_div splitWs.simps isSpace_def)

section \<open>Properties of the chunker\<close>

text \<open>
  C4: for every text that is empty or only whitespace the chunker returns no chunk. The
  code returns one chunk there: \<^verbatim>\<open>"".split(/\s+/)\<close> is \<^verbatim>\<open>[""]\<close>, so the loop runs once
  on the empty word, and the guard \<^verbatim>\<open>currentChunk.length > 0\<close> before the last push holds.
  For the empty text the chunk has the empty text and a token count of 2; for the text of
  one space and one line feed it has the text of one space and a token count of 4.
\<close>

theorem C4_chunkText_blank_input:
  "chunkTextDefault [] d =
     [\<lparr>docId = d, text' = [], position = 0, startIndex = 0, endIndex = 1, tokenCount = 2\<rparr>] \<and>
   chunkTextDefault [CHR '' '', CHR 0x0A] d =
     [\<lparr>docId = d, text' = '' '', position = 0, startIndex = 0, endIndex = 2, tokenCount = 4\<rparr>]"
  by (simp add: chunkTextDefault_def chunkText_def chunkStep_def approximateTokens_div
      splitWs.simps isSpace_def)



lemma slice_from_drop: "\<exists>j \<le> length xs. slice_from a xs = drop j xs"
proof (cases "a < 0")
  case True
  then show ?thesis
    by (intro exI[of _ "nat (int (length xs) + a)"]) (simp add: slice_from_def)
next
  case False
  show ?thesis
  proof (cases "nat a \<le> length xs")
    case True
    with False show ?thesis by (intro exI[of _ "nat a"]) (simp add: slice_from_def)
  next
    case f: False
    with False show ?thesis by (intro exI[of _ "length xs"]) (simp add: slice_from_def)
  qed
qed

lemma overlapSlice_drop: "\<exists>j \<le> length cur. overlapSlice cs ov cur = drop j cur"
proof (cases "cs = 0")
  case True
  show ?thesis
  proof (cases "ov < 0")
    case True
    with \<open>cs = 0\<close> show ?thesis by (intro exI[of _ "length cur"]) (simp add: overlapSlice_def)
  next
    case False
    with \<open>cs = 0\<close> show ?thesis by (intro exI[of _ 0]) (simp add: overlapSlice_def)
  qed
next
  case False
  then show ?thesis using slice_from_drop by (simp add: overlapSlice_def Let_def)
qed

lemma suffix_window:
  assumes "n \<le> i" "i < length words" "cur = take n (drop (i - n) words)" "length cur = n" "j \<le> n"
  shows "drop j cur @ [words ! i] = take (n - j + 1) (drop (i + 1 - (n - j + 1)) words)"
proof -
  have "drop j cur = take (n - j) (drop (i - n + j) words)"
    using assms by (simp add: drop_take add.commute)
  moreover have "i + 1 - (n - j + 1) = i - n + j" using assms by simp
  moreover have "take (n - j) (drop (i - n + j) words) @ [words ! i]
                 = take (n - j + 1) (drop (i - n + j) words)"
  proof -
    have "i - n + j + (n - j) = i" using assms by simp
    then have "drop (i - n + j) words ! (n - j) = words ! i" using assms by simp
    moreover have "n - j < length (drop (i - n + j) words)" using assms by simp
    ultimately show ?thesis by (simp add: take_Suc_conv_app_nth)
  qed
  ultimately show ?thesis by simp
qed

lemma chunk_invI:
  assumes "length (currentChunk st) = n" "n \<le> i" "currentChunk st = take n (drop (i - n) words)"
    and "\<And>k. k < i \<Longrightarrow> (\<exists>c \<in> set (chunks_out st). covers c words k) \<or> i - n \<le> k"
  shows "chunk_inv words i st"
  using assms unfolding chunk_inv_def by metis

lemma chunk_inv_step:
  assumes inv: "chunk_inv words i st" and i: "i < length words"
  shows "chunk_inv words (i + 1) (chunkStep d cs ov i (words ! i) st)"
proof -
  let ?cur = "currentChunk st" and ?n = "length (currentChunk st)"
  from inv have n: "?n \<le> i" and cur: "?cur = take ?n (drop (i - ?n) words)"
    and cov: "\<forall>k < i. (\<exists>c \<in> set (chunks_out st). covers c words k) \<or> i - ?n \<le> k"
    by (simp_all add: chunk_inv_def)
  show ?thesis
  proof (cases "currentTokenCount st + approximateTokens (words ! i) > cs \<and> ?n > 0")
    case False
    let ?st' = "st\<lparr>currentChunk := ?cur @ [words ! i],
           currentTokenCount := currentTokenCount st + approximateTokens (words ! i)\<rparr>"
    from False have st': "chunkStep d cs ov i (words ! i) st = ?st'"
      by (auto simp: chunkStep_def Let_def)
    from suffix_window[OF n i cur _ le0] have
      w: "?cur @ [words ! i] = take (?n + 1) (drop (i + 1 - (?n + 1)) words)" by simp
    show ?thesis unfolding st'
    proof (rule chunk_invI[where n = "?n + 1"])
      show "length (currentChunk ?st') = ?n + 1" by simp
      show "?n + 1 \<le> i + 1" using n by simp
      show "currentChunk ?st' = take (?n + 1) (drop (i + 1 - (?n + 1)) words)" using w by simp
    next
      fix k assume "k < i + 1"
      then show "(\<exists>c \<in> set (chunks_out ?st'). covers c words k) \<or> i + 1 - (?n + 1) \<le> k"
        using cov n by (cases "k < i") auto
    qed
  next
    case True
    obtain j where j: "j \<le> ?n" "overlapSlice cs ov ?cur = drop j ?cur"
      using overlapSlice_drop by blast
    let ?saved = "\<lparr>docId = d, text' = joinSp ?cur, position = position_next st,
                     startIndex = int i - int ?n, endIndex = int i,
                     tokenCount = currentTokenCount st\<rparr>"
    let ?st' = "\<lparr>chunks_out = chunks_out st @ [?saved],
            currentChunk = drop j ?cur @ [words ! i],
            currentTokenCount = approximateTokens (joinSp (drop j ?cur)) + approximateTokens (words ! i),
            position_next = position_next st + 1\<rparr>"
    from True j have st': "chunkStep d cs ov i (words ! i) st = ?st'"
      by (simp add: chunkStep_def Let_def)
    from suffix_window[OF n i cur _ j(1)] have
      w: "drop j ?cur @ [words ! i] = take (?n - j + 1) (drop (i + 1 - (?n - j + 1)) words)" by simp
    have saved: "covers ?saved words k" if "i - ?n \<le> k" "k < i" for k
    proof -
      have "nat (int i - (int i - int ?n)) = ?n" by simp
      moreover have "nat (int i - int ?n) = i - ?n" by simp
      ultimately show ?thesis using that n i cur by (simp add: covers_def)
    qed
    show ?thesis unfolding st'
    proof (rule chunk_invI[where n = "?n - j + 1"])
      show "length (currentChunk ?st') = ?n - j + 1" using j by simp
      show "?n - j + 1 \<le> i + 1" using n by simp
      show "currentChunk ?st' = take (?n - j + 1) (drop (i + 1 - (?n - j + 1)) words)" using w by simp
    next
      fix k assume k: "k < i + 1"
      show "(\<exists>c \<in> set (chunks_out ?st'). covers c words k) \<or> i + 1 - (?n - j + 1) \<le> k"
      proof (cases "k < i")
        case False
        with k j n have "i + 1 - (?n - j + 1) \<le> k" by arith
        then show ?thesis by blast
      next
        case True
        with cov have "(\<exists>c \<in> set (chunks_out st). covers c words k) \<or> i - ?n \<le> k" by simp
        then show ?thesis using saved[of k] True by auto
      qed
    qed
  qed
qed

lemma chunk_inv_loop:
  "chunk_inv (pre @ rest) (length pre) st \<Longrightarrow>
   chunk_inv (pre @ rest) (length pre + length rest) (chunkLoop d cs ov (length pre) rest st)"
proof (induction rest arbitrary: pre st)
  case Nil
  then show ?case by simp
next
  case (Cons w rest)
  have "chunk_inv (pre @ w # rest) (length pre + 1) (chunkStep d cs ov (length pre) ((pre @ w # rest) ! length pre) st)"
    by (rule chunk_inv_step[OF Cons.prems]) simp
  then have "chunk_inv ((pre @ [w]) @ rest) (length (pre @ [w])) (chunkStep d cs ov (length pre) w st)"
    by simp
  from Cons.IH[OF this] show ?case by simp
qed

lemma chunkLoop_nonempty:
  "rest \<noteq> [] \<Longrightarrow> currentChunk (chunkLoop d cs ov i rest st) \<noteq> []"
proof (induction rest arbitrary: i st)
  case Nil
  then show ?case by simp
next
  case (Cons w rest)
  have ne: "currentChunk (chunkStep d cs ov i w st) \<noteq> []"
    by (simp add: chunkStep_def Let_def)
  show ?case
  proof (cases rest)
    case Nil
    with ne show ?thesis by simp
  next
    case (Cons a list)
    with Cons.IH[of "i + 1" "chunkStep d cs ov i w st"] show ?thesis by simp
  qed
qed

lemma splitWs_nonempty: "splitWs t \<noteq> []"
  by (subst splitWs.simps) (simp add: Let_def)

lemma splitWs_single:
  assumes "dropWhile (\<lambda>c. \<not> isSpace c) s = []"
  shows "splitWs s = [takeWhile (\<lambda>c. \<not> isSpace c) s]"
  by (subst splitWs.simps) (simp only: Let_def assms simp_thms if_True)

lemma splitWs_more:
  assumes "dropWhile (\<lambda>c. \<not> isSpace c) s \<noteq> []"
  shows "splitWs s = takeWhile (\<lambda>c. \<not> isSpace c) s #
           splitWs (dropWhile isSpace (dropWhile (\<lambda>c. \<not> isSpace c) s))"
  by (subst splitWs.simps) (simp only: Let_def assms if_False)

lemma initial_inv: "chunk_inv words 0 \<lparr>chunks_out = [], currentChunk = [], currentTokenCount = 0, position_next = 0\<rparr>"
  by (simp add: chunk_inv_def)

lemma chunkText_covers:
  assumes "k < length (splitWs txt)"
  shows "\<exists>c \<in> set (chunkText txt d cs ov). covers c (splitWs txt) k"
proof -
  let ?words = "splitWs txt"
  let ?st = "chunkLoop d cs ov 0 ?words \<lparr>chunks_out = [], currentChunk = [], currentTokenCount = 0, position_next = 0\<rparr>"
  let ?n = "length (currentChunk ?st)"
  let ?last = "\<lparr>docId = d, text' = joinSp (currentChunk ?st), position = position_next ?st,
               startIndex = int (length ?words) - int ?n,
               endIndex = int (length ?words), tokenCount = currentTokenCount ?st\<rparr>"
  have "chunk_inv ([] @ ?words) (length ([]::string list) + length ?words) ?st"
    using chunk_inv_loop[of "[]" ?words _ d cs ov] initial_inv by simp
  then have inv: "chunk_inv ?words (length ?words) ?st" by simp
  then have n: "?n \<le> length ?words" and cur: "currentChunk ?st = take ?n (drop (length ?words - ?n) ?words)"
    and cov: "\<forall>k < length ?words. (\<exists>c \<in> set (chunks_out ?st). covers c ?words k) \<or> length ?words - ?n \<le> k"
    by (simp_all add: chunk_inv_def)
  have ne: "currentChunk ?st \<noteq> []" using chunkLoop_nonempty splitWs_nonempty by blast
  then have ct: "chunkText txt d cs ov = chunks_out ?st @ [?last]"
    by (simp add: chunkText_def Let_def)
  from cov assms have "(\<exists>c \<in> set (chunks_out ?st). covers c ?words k) \<or> length ?words - ?n \<le> k" by simp
  then show ?thesis
  proof
    assume "\<exists>c \<in> set (chunks_out ?st). covers c ?words k"
    with ct show ?thesis by auto
  next
    assume k: "length ?words - ?n \<le> k"
    have "nat (int (length ?words) - (int (length ?words) - int ?n)) = ?n" by simp
    moreover have "nat (int (length ?words) - int ?n) = length ?words - ?n" by simp
    ultimately have "covers ?last ?words k" using k assms n cur by (simp add: covers_def)
    with ct show ?thesis by simp
  qed
qed


lemma joinSp_snoc: "joinSp (ws @ [w]) = (if ws = [] then w else joinSp ws @ '' '' @ w)"
  by (induction ws rule: joinSp.induct) auto

lemma overlapSlice_nonempty:
  assumes "0 < cs" "0 \<le> ov" "cur \<noteq> []"
  shows "overlapSlice cs ov cur \<noteq> []"
proof -
  define ow where "ow = \<lfloor>real (length cur) * (real_of_int ov / real_of_int cs)\<rfloor>"
  have "0 \<le> real (length cur) * (real_of_int ov / real_of_int cs)" using assms by simp
  then have ow: "0 \<le> ow" unfolding ow_def by simp
  have n: "0 < length cur" using assms(3) by simp
  have "slice_from (- ow) cur \<noteq> []"
  proof (cases "ow = 0")
    case True
    with assms(3) show ?thesis by (simp add: slice_from_def)
  next
    case False
    with ow have pos: "0 < ow" by linarith
    with n have "nat (int (length cur) - ow) < length cur" by linarith
    with pos show ?thesis by (simp add: slice_from_def)
  qed
  with assms(1) show ?thesis by (simp add: overlapSlice_def Let_def ow_def)
qed

lemma len_inv_step:
  assumes inv: "len_inv words i st" and i: "i < length words" and cs: "0 < cs" and ov: "0 \<le> ov"
  shows "len_inv words (i + 1) (chunkStep d cs ov i (words ! i) st)"
proof -
  let ?cur = "currentChunk st" and ?w = "words ! i"
  from inv have ne: "0 < i \<longrightarrow> ?cur \<noteq> []"
    and len: "length (joinSp (take i words)) \<le> totalLength (chunks_out st) + length (joinSp ?cur)"
    by (simp_all add: len_inv_def)
  have tk: "take (i + 1) words = take i words @ [?w]" using i by (simp add: take_Suc_conv_app_nth)
  have tl: "length (joinSp (take (i + 1) words)) =
              (if i = 0 then length ?w else length (joinSp (take i words)) + 1 + length ?w)"
    using i unfolding tk joinSp_snoc by auto
  show ?thesis
  proof (cases "currentTokenCount st + approximateTokens ?w > cs \<and> length ?cur > 0")
    case False
    then have st': "chunkStep d cs ov i ?w st =
        st\<lparr>currentChunk := ?cur @ [?w], currentTokenCount := currentTokenCount st + approximateTokens ?w\<rparr>"
      by (auto simp: chunkStep_def Let_def)
    show ?thesis unfolding st' len_inv_def using ne len tl
      by (auto simp: joinSp_snoc)
  next
    case True
    let ?kept = "overlapSlice cs ov ?cur"
    from True have "?cur \<noteq> []" by auto
    from overlapSlice_nonempty[OF cs ov this] have kept: "?kept \<noteq> []" .
    from True have st': "chunkStep d cs ov i ?w st =
         \<lparr>chunks_out = chunks_out st @ [\<lparr>docId = d, text' = joinSp ?cur, position = position_next st,
                     startIndex = int i - int (length ?cur), endIndex = int i,
                     tokenCount = currentTokenCount st\<rparr>],
            currentChunk = ?kept @ [?w],
            currentTokenCount = approximateTokens (joinSp ?kept) + approximateTokens ?w,
            position_next = position_next st + 1\<rparr>"
      by (simp add: chunkStep_def Let_def)
    show ?thesis unfolding st' len_inv_def using kept len tl
      by (auto simp: joinSp_snoc totalLength_def)
  qed
qed

lemma len_inv_loop:
  "len_inv (pre @ rest) (length pre) st \<Longrightarrow> 0 < cs \<Longrightarrow> 0 \<le> ov \<Longrightarrow>
   len_inv (pre @ rest) (length pre + length rest) (chunkLoop d cs ov (length pre) rest st)"
proof (induction rest arbitrary: pre st)
  case Nil
  then show ?case by simp
next
  case (Cons w rest)
  have "len_inv (pre @ w # rest) (length pre + 1) (chunkStep d cs ov (length pre) ((pre @ w # rest) ! length pre) st)"
    by (rule len_inv_step[OF Cons.prems(1) _ Cons.prems(2,3)]) simp
  then have "len_inv ((pre @ [w]) @ rest) (length (pre @ [w])) (chunkStep d cs ov (length pre) w st)"
    by simp
  from Cons.IH[OF this Cons.prems(2,3)] show ?case by simp
qed

lemma chunkText_totalLength:
  assumes "0 < cs" "0 \<le> ov"
  shows "length (joinSp (splitWs txt)) \<le> totalLength (chunkText txt d cs ov)"
proof -
  let ?words = "splitWs txt"
  let ?init = "\<lparr>chunks_out = [], currentChunk = [], currentTokenCount = 0, position_next = 0\<rparr>"
  let ?st = "chunkLoop d cs ov 0 ?words ?init"
  have "len_inv ([] @ ?words) (length ([]::string list) + length ?words)
          (chunkLoop d cs ov (length ([]::string list)) ?words ?init)"
    by (rule len_inv_loop) (simp_all add: len_inv_def totalLength_def assms)
  then have "len_inv ?words (length ?words) ?st" by simp
  then have len: "length (joinSp ?words) \<le> totalLength (chunks_out ?st) + length (joinSp (currentChunk ?st))"
    by (simp add: len_inv_def)
  have ne: "currentChunk ?st \<noteq> []" using chunkLoop_nonempty splitWs_nonempty by blast
  then have "totalLength (chunkText txt d cs ov) = totalLength (chunks_out ?st) + length (joinSp (currentChunk ?st))"
    by (simp add: chunkText_def Let_def totalLength_def)
  with len show ?thesis by simp
qed

lemma singleSpaced_tl: "singleSpaced (a # s) \<Longrightarrow> singleSpaced s"
  by (cases s) auto

lemma singleSpaced_dropWhile: "singleSpaced s \<Longrightarrow> singleSpaced (dropWhile P s)"
proof (induction s)
  case Nil
  then show ?case by simp
next
  case (Cons a s)
  from Cons.prems have "singleSpaced s" by (rule singleSpaced_tl)
  with Cons show ?case by simp
qed

lemma joinSp_Cons: "ws \<noteq> [] \<Longrightarrow> joinSp (w # ws) = w @ '' '' @ joinSp ws"
  by (cases ws) auto

lemma length_joinSp_splitWs_le: "length (joinSp (splitWs s)) \<le> length s"
proof (induction s rule: splitWs.induct)
  case (1 s)
  let ?w = "takeWhile (\<lambda>c. \<not> isSpace c) s" and ?rest = "dropWhile (\<lambda>c. \<not> isSpace c) s"
  have s: "length s = length ?w + length ?rest"
    by (metis length_append takeWhile_dropWhile_id)
  show ?case
  proof (cases "?rest = []")
    case True
    then have "splitWs s = [?w]" by (rule splitWs_single)
    with s show ?thesis by simp
  next
    case False
    then have sp: "splitWs s = ?w # splitWs (dropWhile isSpace ?rest)"
      by (rule splitWs_more)
    have "isSpace (hd ?rest)" using False hd_dropWhile[of "\<lambda>c. \<not> isSpace c" s] by auto
    with False have "length (dropWhile isSpace ?rest) < length ?rest"
      by (cases ?rest) (auto simp: le_imp_less_Suc length_dropWhile_le)
    moreover from "1.IH"[OF refl refl False]
    have "length (joinSp (splitWs (dropWhile isSpace ?rest))) \<le> length (dropWhile isSpace ?rest)" .
    ultimately show ?thesis using s sp splitWs_nonempty by (simp add: joinSp_Cons)
  qed
qed

lemma length_joinSp_splitWs_eq: "singleSpaced s \<Longrightarrow> length (joinSp (splitWs s)) = length s"
proof (induction s rule: splitWs.induct)
  case (1 s)
  let ?w = "takeWhile (\<lambda>c. \<not> isSpace c) s" and ?rest = "dropWhile (\<lambda>c. \<not> isSpace c) s"
  have s: "length s = length ?w + length ?rest"
    by (metis length_append takeWhile_dropWhile_id)
  show ?case
  proof (cases "?rest = []")
    case True
    then have "splitWs s = [?w]" by (rule splitWs_single)
    with s True show ?thesis by simp
  next
    case False
    then have sp: "splitWs s = ?w # splitWs (dropWhile isSpace ?rest)"
      by (rule splitWs_more)
    have hd: "isSpace (hd ?rest)" using False hd_dropWhile[of "\<lambda>c. \<not> isSpace c" s] by auto
    have ss: "singleSpaced ?rest" using "1.prems" by (rule singleSpaced_dropWhile)
    obtain a r where r: "?rest = a # r" using False by (cases ?rest) auto
    with hd have a: "isSpace a" by simp
    have dr: "dropWhile isSpace ?rest = r"
    proof (cases r)
      case Nil
      with r a show ?thesis by simp
    next
      case (Cons b r')
      with ss r a have "\<not> isSpace b" by simp
      with r a Cons show ?thesis by simp
    qed
    have "singleSpaced r" using ss r singleSpaced_tl by metis
    with "1.IH"[OF refl refl False] dr have "length (joinSp (splitWs r)) = length r" by simp
    then show ?thesis using s sp dr r splitWs_nonempty by (simp add: joinSp_Cons)
  qed
qed


lemma splitWs_letters:
  "splitWs (joinSp (replicate (Suc n) ''a'')) = replicate (Suc n) ''a''"
proof (induction n)
  case 0
  show ?case by (simp add: splitWs.simps isSpace_def)
next
  case (Suc n)
  let ?rest = "joinSp (replicate (Suc n) ''a'')"
  have j: "joinSp (replicate (Suc (Suc n)) ''a'') = CHR ''a'' # CHR '' '' # ?rest" by simp
  obtain r where r: "?rest = CHR ''a'' # r" by (cases n) auto
  have d: "dropWhile (\<lambda>c. \<not> isSpace c) (CHR ''a'' # CHR '' '' # ?rest) = CHR '' '' # ?rest"
    by (simp add: isSpace_def)
  have t: "takeWhile (\<lambda>c. \<not> isSpace c) (CHR ''a'' # CHR '' '' # ?rest) = ''a''"
    by (simp add: isSpace_def)
  have d2: "dropWhile isSpace (CHR '' '' # ?rest) = ?rest"
    unfolding r by (simp add: isSpace_def)
  have "splitWs (CHR ''a'' # CHR '' '' # ?rest) = ''a'' # splitWs ?rest"
    using splitWs_more[of "CHR ''a'' # CHR '' '' # ?rest"] unfolding d t d2 by simp
  with Suc j show ?case by simp
qed

lemma approximateTokens_letters:
  "approximateTokens (joinSp (replicate (Suc n) ''a'')) = (4 * int (Suc n) + 2) div 3"
  by (simp only: approximateTokens_div splitWs_letters length_replicate)

lemma approximateTokens_a: "approximateTokens ''a'' = 2"
  using approximateTokens_letters[of 0] by simp

lemma chunkLoop_fill:
  "2 * int (m + n) \<le> 800 \<Longrightarrow>
   chunkLoop d 800 200 i (replicate n ''a'')
     \<lparr>chunks_out = [], currentChunk = replicate m ''a'', currentTokenCount = 2 * int m,
      position_next = 0\<rparr> =
     \<lparr>chunks_out = [], currentChunk = replicate (m + n) ''a'', currentTokenCount = 2 * int (m + n),
      position_next = 0\<rparr>"
proof (induction n arbitrary: m i)
  case 0
  then show ?case by simp
next
  case (Suc n)
  have step: "chunkStep d 800 200 i ''a''
     \<lparr>chunks_out = [], currentChunk = replicate m ''a'', currentTokenCount = 2 * int m,
      position_next = 0\<rparr> =
     \<lparr>chunks_out = [], currentChunk = replicate (Suc m) ''a'', currentTokenCount = 2 * int (Suc m),
      position_next = 0\<rparr>"
    using Suc.prems by (simp add: chunkStep_def approximateTokens_a replicate_append_same)
  have "2 * int (Suc m + n) \<le> 800" using Suc.prems by simp
  from Suc.IH[OF this, of "i + 1"] step show ?case by simp
qed


lemma chunkLoop_append:
  "chunkLoop d cs ov i (xs @ ys) st = chunkLoop d cs ov (i + length xs) ys (chunkLoop d cs ov i xs st)"
  by (induction xs arbitrary: i st) simp_all

lemma length_joinSp_letters: "length (joinSp (replicate (Suc n) ''a'')) = 2 * n + 1"
  by (induction n) simp_all

lemma singleSpaced_letters: "singleSpaced (joinSp (replicate (Suc n) ''a''))"
proof (induction n)
  case 0
  show ?case by simp
next
  case (Suc n)
  obtain r where r: "joinSp (replicate (Suc n) ''a'') = CHR ''a'' # r" by (cases n) auto
  have "joinSp (replicate (Suc (Suc n)) ''a'') = CHR ''a'' # CHR '' '' # CHR ''a'' # r"
    using r by simp
  moreover have "singleSpaced (CHR ''a'' # r)" using Suc r by simp
  ultimately show ?case by (simp add: isSpace_def)
qed

lemma overlapSlice_400: "overlapSlice 800 200 (replicate 400 ''a'') = replicate 100 ''a''"
  by (simp add: overlapSlice_def slice_from_def)

lemma chunkLoop_letters:
  "chunkLoop d 800 200 0 (replicate 401 ''a'')
     \<lparr>chunks_out = [], currentChunk = [], currentTokenCount = 0, position_next = 0\<rparr> =
   \<lparr>chunks_out = [\<lparr>docId = d, text' = joinSp (replicate 400 ''a''), position = 0,
                    startIndex = 0, endIndex = 400, tokenCount = 800\<rparr>],
    currentChunk = replicate 101 ''a'', currentTokenCount = 136, position_next = 1\<rparr>"
proof -
  have e401: "(401::nat) = Suc 400" by simp
  have w: "replicate 401 ''a'' = replicate 400 ''a'' @ [''a'']"
    unfolding e401 by (simp only: replicate_append_same replicate_Suc)
  have fill: "chunkLoop d 800 200 0 (replicate 400 ''a'')
     \<lparr>chunks_out = [], currentChunk = [], currentTokenCount = 0, position_next = 0\<rparr> =
     \<lparr>chunks_out = [], currentChunk = replicate 400 ''a'', currentTokenCount = 800,
      position_next = 0\<rparr>"
    using chunkLoop_fill[of 0 400 d 0] by simp
  have a100: "approximateTokens (joinSp (replicate 100 ''a'')) = 134"
    using approximateTokens_letters[of 99] by simp
  have e101: "(101::nat) = Suc 100" by simp
  have r101: "replicate 100 ''a'' @ [''a''] = replicate 101 ''a''"
    unfolding e101 by (simp only: replicate_append_same replicate_Suc)
  have step: "chunkStep d 800 200 400 ''a''
     \<lparr>chunks_out = [], currentChunk = replicate 400 ''a'', currentTokenCount = 800,
      position_next = 0\<rparr> =
     \<lparr>chunks_out = [\<lparr>docId = d, text' = joinSp (replicate 400 ''a''), position = 0,
                    startIndex = 0, endIndex = 400, tokenCount = 800\<rparr>],
    currentChunk = replicate 101 ''a'', currentTokenCount = 136, position_next = 1\<rparr>"
    by (simp add: chunkStep_def approximateTokens_a overlapSlice_400 a100 r101 Let_def)
  show ?thesis unfolding w chunkLoop_append fill by (simp add: step)
qed

lemma chunkTextDefault_letters:
  "chunkTextDefault (joinSp (replicate 401 ''a'')) d =
     [\<lparr>docId = d, text' = joinSp (replicate 400 ''a''), position = 0,
       startIndex = 0, endIndex = 400, tokenCount = 800\<rparr>,
      \<lparr>docId = d, text' = joinSp (replicate 101 ''a''), position = 1,
       startIndex = 300, endIndex = 401, tokenCount = 136\<rparr>]"
proof -
  have s: "splitWs (joinSp (replicate 401 ''a'')) = replicate 401 ''a''"
    using splitWs_letters[of 400] by simp
  show ?thesis
    unfolding chunkTextDefault_def chunkText_def s Let_def chunkLoop_letters by simp
qed



text \<open>
  C5, as stated: the chunk texts are together at least as long as the original text. The
  chunk text is the words joined by single spaces, so a longer run of whitespace is lost:
  the text of an \<^verbatim>\<open>a\<close>, two spaces and a \<^verbatim>\<open>b\<close> has length 4 and gives the one chunk
  \<^verbatim>\<open>"a b"\<close> of length 3.
\<close>

theorem C5_total_length_counterexample:
  "chunkTextDefault ''a  b'' 1 =
     [\<lparr>docId = 1, text' = ''a b'', position = 0, startIndex = 0, endIndex = 2, tokenCount = 4\<rparr>] \<and>
   totalLength (chunkTextDefault ''a  b'' 1) < length ''a  b''"
  by (simp add: chunkTextDefault_def chunkText_def chunkStep_def approximateTokens_div
      splitWs.simps isSpace_def totalLength_def)


text \<open>
  C5, amended: for every text, at the default chunk size of 800 and overlap of 200, each
  word of the split text is covered by an emitted chunk: its index lies in the chunk's
  range from \<^verbatim>\<open>startIndex\<close> to \<^verbatim>\<open>endIndex\<close> and the chunk text is the words of that range
  joined by single spaces. The chunk texts are together at least as long as the words of
  the text joined by single spaces, and so at least as long as the text itself when no two
  whitespace characters are adjacent in it.
\<close>

theorem C5_chunking_total:
  "(\<forall>k < length (splitWs txt). \<exists>c \<in> set (chunkTextDefault txt d). covers c (splitWs txt) k) \<and>
   length (joinSp (splitWs txt)) \<le> totalLength (chunkTextDefault txt d) \<and>
   (singleSpaced txt \<longrightarrow> length txt \<le> totalLength (chunkTextDefault txt d))"
proof (intro conjI allI impI)
  fix k assume "k < length (splitWs txt)"
  then show "\<exists>c \<in> set (chunkTextDefault txt d). covers c (splitWs txt) k"
    unfolding chunkTextDefault_def by (rule chunkText_covers)
next
  show len: "length (joinSp (splitWs txt)) \<le> totalLength (chunkTextDefault txt d)"
    unfolding chunkTextDefault_def by (rule chunkText_totalLength) simp_all
  assume "singleSpaced txt"
  then have "length (joinSp (splitWs txt)) = length txt" by (rule length_joinSp_splitWs_eq)
  with len show "length txt \<le> totalLength (chunkTextDefault txt d)" by simp
qed

theorem C5_chunking_total_witness:
  "singleSpaced (joinSp (replicate 401 ''a'')) \<and>
   length (splitWs (joinSp (replicate 401 ''a''))) = 401 \<and>
   chunkTextDefault (joinSp (replicate 401 ''a'')) 7 =
     [\<lparr>docId = 7, text' = joinSp (replicate 400 ''a''), position = 0,
       startIndex = 0, endIndex = 400, tokenCount = 800\<rparr>,
      \<lparr>docId = 7, text' = joinSp (replicate 101 ''a''), position = 1,
       startIndex = 300, endIndex = 401, tokenCount = 136\<rparr>] \<and>
   list_all (\<lambda>k. list_ex (\<lambda>c. covers c (splitWs (joinSp (replicate 401 ''a''))) k)
                      (chunkTextDefault (joinSp (replicate 401 ''a'')) 7)) [0..<401] \<and>
   length (joinSp (replicate 401 ''a'')) = 801 \<and>
   totalLength (chunkTextDefault (joinSp (replicate 401 ''a'')) 7) = 1000"
proof -
  note t = C5_chunking_total [of "joinSp (replicate 401 ''a'')" 7]
  have s: "splitWs (joinSp (replicate 401 ''a'')) = replicate 401 ''a''"
    using splitWs_letters[of 400] by simp
  have a: "singleSpaced (joinSp (replicate 401 ''a''))"
    using singleSpaced_letters[of 400] by simp
  have b: "length (splitWs (joinSp (replicate 401 ''a''))) = 401"
    unfolding s by simp
  have c: "list_all (\<lambda>k. list_ex (\<lambda>c. covers c (splitWs (joinSp (replicate 401 ''a''))) k)
                      (chunkTextDefault (joinSp (replicate 401 ''a'')) 7)) [0..<401]"
    unfolding list_all_iff list_ex_iff
  proof
    fix k :: nat
    assume "k \<in> set [0..<401]"
    then have "k < length (splitWs (joinSp (replicate 401 ''a'')))"
      unfolding b by simp
    with t show "\<exists>c \<in> set (chunkTextDefault (joinSp (replicate 401 ''a'')) 7).
                   covers c (splitWs (joinSp (replicate 401 ''a''))) k"
      by blast
  qed
  have l401: "length (joinSp (replicate 401 ''a'')) = 801"
    using length_joinSp_letters[of 400] by simp
  have l400: "length (joinSp (replicate 400 ''a'')) = 799"
    using length_joinSp_letters[of 399] by simp
  have l101: "length (joinSp (replicate 101 ''a'')) = 201"
    using length_joinSp_letters[of 100] by simp
  have d: "totalLength (chunkTextDefault (joinSp (replicate 401 ''a'')) 7) = 1000"
    unfolding chunkTextDefault_letters totalLength_def by (simp add: l400 l101)
  show ?thesis
    apply (intro conjI)
    subgoal by (rule a)
    subgoal by (rule b)
    subgoal by (rule chunkTextDefault_letters)
    subgoal by (rule c)
    subgoal by (rule l401)
    subgoal by (rule d)
    done
qed

section \<open>Properties of the vector store\<close>

lemma fold_deleteChunkAndVector_chunks:
  "chunks (fold deleteChunkAndVector cids s) = filter (\<lambda>c. chunk_id c \<notin> set cids) (chunks s)"
  by (induction cids arbitrary: s) (auto simp: deleteChunkAndVector_def idb_delete_def intro: filter_cong)

lemma fold_deleteChunkAndVector_vectors:
  "vectors (fold deleteChunkAndVector cids s) = filter (\<lambda>v. vec_id v \<notin> set cids) (vectors s)"
  by (induction cids arbitrary: s) (auto simp: deleteChunkAndVector_def idb_delete_def intro: filter_cong)

lemma fold_deleteChunkAndVector_other:
  "documents (fold deleteChunkAndVector cids s) = documents s"
  "metadata (fold deleteChunkAndVector cids s) = metadata s"
  by (induction cids arbitrary: s) (auto simp: deleteChunkAndVector_def)

lemma deleteDocument_chunks:
  "chunks (fst (deleteDocument d s)) =
     filter (\<lambda>c. chunk_id c \<notin> chunk_id ` {c \<in> set (chunks s). docId c = d}) (chunks s)"
  by (auto simp: deleteDocument_def Let_def fold_deleteChunkAndVector_chunks
      fold_deleteChunkAndVector_other split: option.splits intro: filter_cong)

lemma deleteDocument_vectors:
  "vectors (fst (deleteDocument d s)) =
     filter (\<lambda>v. vec_id v \<notin> chunk_id ` {c \<in> set (chunks s). docId c = d}) (vectors s)"
  by (auto simp: deleteDocument_def Let_def fold_deleteChunkAndVector_vectors
      fold_deleteChunkAndVector_other split: option.splits intro: filter_cong)

lemma deleteDocument_documents:
  "documents (fst (deleteDocument d s)) = filter (\<lambda>x. doc_id x \<noteq> d) (documents s)"
  by (auto simp: deleteDocument_def Let_def idb_delete_def fold_deleteChunkAndVector_other split: option.splits)

lemma idb_get_in: "idb_get key rows k = Some r \<Longrightarrow> r \<in> set rows \<and> key r = k"
  by (auto simp: idb_get_def find_Some_iff)

lemma scanVectors_chunks:
  "scanVectors s q th vs = Inr out \<Longrightarrow> h \<in> set out \<Longrightarrow> chunk h \<in> set (chunks s)"
proof (induction vs arbitrary: out)
  case Nil
  then show ?case by simp
next
  case (Cons r rest)
  from Cons.prems(1) obtain sc where sc: "cosineSimilarity q (blob r) = Inr sc"
    by (auto split: sum.splits)
  show ?case
  proof (cases "sc \<ge> th")
    case False
    with Cons.prems(1) sc have "scanVectors s q th rest = Inr out" by simp
    from Cons.IH[OF this Cons.prems(2)] show ?thesis .
  next
    case True
    with Cons.prems(1) sc obtain ch out' where
      ch: "idb_get chunk_id (chunks s) (chunkId r) = Some ch" and
      rest: "scanVectors s q th rest = Inr out'" and
      out: "out = \<lparr>vector = blob r, score = sc, chunk = ch,
                    document = idb_get doc_id (documents s) (docId ch),
                    hit_chunkId = chunkId r, index = None\<rparr> # out'"
      by (auto split: sum.splits option.splits)
    from idb_get_in[OF ch] have "ch \<in> set (chunks s)" by simp
    with Cons.IH[OF rest] Cons.prems(2) out show ?thesis by auto
  qed
qed

lemma scoreAll_chunks:
  "scoreAll q vs i = Inr out \<Longrightarrow> \<forall>v \<in> set vs. P (chunk v) \<Longrightarrow> \<forall>h \<in> set out. P (chunk h)"
proof (induction vs arbitrary: i out)
  case Nil
  then show ?case by simp
next
  case (Cons v rest)
  from Cons.prems(1) obtain sc out' where
    rest: "scoreAll q rest (i + 1) = Inr out'" and
    out: "out = v\<lparr>index := Some i, score := sc\<rparr> # out'"
    by (auto split: sum.splits)
  from Cons.IH[OF rest] Cons.prems(2) out show ?case by simp
qed

lemma set_slice_upto: "set (slice_upto k xs) \<subseteq> set xs"
  by (auto simp: slice_upto_def dest: in_set_takeD)

lemma findTopK_chunks:
  assumes "findTopK q vs k = Inr res" and "\<forall>v \<in> set vs. P (chunk v)"
  shows "\<forall>h \<in> set res. P (chunk h)"
proof -
  from assms(1) obtain scores where s: "scoreAll q vs 0 = Inr scores"
    and r: "res = slice_upto k (sort_key (\<lambda>r. - score r) scores)"
    by (auto simp: findTopK_def split: sum.splits)
  have "set res \<subseteq> set scores"
    using r set_slice_upto[of k "sort_key (\<lambda>r. - score r) scores"] by simp
  with scoreAll_chunks[OF s assms(2)] show ?thesis by blast
qed

lemma set_splice1: "set (splice1 i xs) \<subseteq> set xs"
  by (auto simp: splice1_def dest: in_set_takeD in_set_dropD)

lemma mmrLoop_stop:
  "\<not> (int (length selected) < k \<and> length remaining > 0) \<Longrightarrow>
   mmrLoop q lam k selected remaining = Inr selected"
  by (subst mmrLoop.simps) simp

lemma mmrLoop_step:
  "int (length selected) < k \<and> length remaining > 0 \<Longrightarrow>
   mmrLoop q lam k selected remaining =
     (case mmrScan q lam selected remaining 0 None of
        Inl e \<Rightarrow> Inl e
      | Inr None \<Rightarrow> Inr selected
      | Inr (Some (maxScore, maxIndex)) \<Rightarrow>
          mmrLoop q lam k (selected @ [(remaining ! maxIndex)\<lparr>score := maxScore\<rparr>])
            (splice1 maxIndex remaining))"
  by (subst mmrLoop.simps) simp

lemma mmrLoop_chunks:
  "mmrLoop q lam k selected remaining = Inr res \<Longrightarrow>
   \<forall>v \<in> set selected. P (chunk v) \<Longrightarrow> \<forall>v \<in> set remaining. P (chunk v) \<Longrightarrow>
   \<forall>h \<in> set res. P (chunk h)"
proof (induction q lam k selected remaining rule: mmrLoop.induct)
  case (1 q lam k selected remaining)
  show ?case
  proof (cases "int (length selected) < k \<and> length remaining > 0")
    case False
    with "1.prems" show ?thesis by (simp add: mmrLoop_stop)
  next
    case True
    show ?thesis
    proof (cases "mmrScan q lam selected remaining 0 None")
      case (Inl e)
      with True "1.prems" show ?thesis by (simp add: mmrLoop_step)
    next
      case (Inr b)
      show ?thesis
      proof (cases b)
        case None
        with True Inr "1.prems" show ?thesis by (simp add: mmrLoop_step)
      next
        case (Some p)
        obtain m j where p: "p = (m, j)" by (cases p)
        from mmrScan_index[of q lam selected remaining 0 None m j] Inr Some p
        have j: "j < length remaining" by simp
        from True Inr Some p "1.prems"(1)
        have rec: "mmrLoop q lam k (selected @ [(remaining ! j)\<lparr>score := m\<rparr>]) (splice1 j remaining) = Inr res"
          by (simp add: mmrLoop_step)
        have sel: "\<forall>v \<in> set (selected @ [(remaining ! j)\<lparr>score := m\<rparr>]). P (chunk v)"
          using "1.prems"(2,3) j by simp
        have rem: "\<forall>v \<in> set (splice1 j remaining). P (chunk v)"
          using "1.prems"(3) set_splice1[of j remaining] by blast
        from "1.IH"[OF True Inr Some p[symmetric] rec sel rem] show ?thesis .
      qed
    qed
  qed
qed

lemma firstScan_index:
  "firstScan q vs i b = Inr (Some (m, j)) \<Longrightarrow> b = Some (m, j) \<or> (i \<le> j \<and> j < i + length vs)"
proof (induction vs arbitrary: i b)
  case Nil
  then show ?case by simp
next
  case (Cons c cs)
  from Cons.prems obtain b' where
    step: "firstScan q cs (i + 1) b' = Inr (Some (m, j))" and
    b': "b' = b \<or> (\<exists>x. b' = Some (x, i))"
    by (auto split: sum.splits if_splits)
  from Cons.IH [OF step] b' show ?case by auto
qed

lemma mmrRerank_chunks:
  assumes "mmrRerank q vs lam k = Inr res" and all: "\<forall>v \<in> set vs. P (chunk v)"
  shows "\<forall>h \<in> set res. P (chunk h)"
proof (cases "vs = []")
  case True
  with assms show ?thesis by (simp add: mmrRerank_def)
next
  case False
  show ?thesis
  proof (cases "firstScan q vs 0 None")
    case (Inl e)
    with False assms show ?thesis by (simp add: mmrRerank_def)
  next
    case (Inr b)
    show ?thesis
    proof (cases b)
      case None
      with False Inr assms have "mmrLoop q lam k [] vs = Inr res" by (simp add: mmrRerank_def)
      from mmrLoop_chunks[OF this _ all] show ?thesis by simp
    next
      case (Some p)
      obtain m j where p: "p = (m, j)" by (cases p)
      from firstScan_index[of q vs 0 None m j] Inr Some p have j: "j < length vs" by simp
      from False Inr Some p assms
      have l: "mmrLoop q lam k [(vs ! j)\<lparr>score := m\<rparr>] (splice1 j vs) = Inr res"
        by (simp add: mmrRerank_def)
      have sel: "\<forall>v \<in> set [(vs ! j)\<lparr>score := m\<rparr>]. P (chunk v)" using all j by simp
      have rem: "\<forall>v \<in> set (splice1 j vs). P (chunk v)" using all set_splice1[of j vs] by blast
      from mmrLoop_chunks[OF l sel rem] show ?thesis .
    qed
  qed
qed

lemma search_chunks:
  assumes "search embedder q opts s = Inr res" and "h \<in> set res"
  shows "chunk h \<in> set (chunks s)"
proof -
  from assms(1) obtain qv vws where
    v: "scanVectors s qv (threshold opts) (vectors s) = Inr vws" and
    r: "mmrRerank qv vws (mmrLambda opts) (topK opts) = Inr res \<or> findTopK qv vws (topK opts) = Inr res"
    by (auto simp: search_def queryVector_def split: sum.splits if_splits)
  have all: "\<forall>v \<in> set vws. chunk v \<in> set (chunks s)"
    using scanVectors_chunks[OF v] by blast
  from r show ?thesis
  proof
    assume "mmrRerank qv vws (mmrLambda opts) (topK opts) = Inr res"
    from mmrRerank_chunks[OF this, of "\<lambda>c. c \<in> set (chunks s)"] all assms(2) show ?thesis by blast
  next
    assume "findTopK qv vws (topK opts) = Inr res"
    from findTopK_chunks[OF this, of "\<lambda>c. c \<in> set (chunks s)"] all assms(2) show ?thesis by blast
  qed
qed

lemma cos_10_10: "cosineSimilarity [1, 0] [1, 0] = Inr 1"
  by (simp add: cosineSimilarity_def)
lemma cos_10_01: "cosineSimilarity [1, 0] [0, 1] = Inr 0"
  by (simp add: cosineSimilarity_def)


text \<open>
  C6: after \<^verbatim>\<open>deleteDocument(docId)\<close> no chunk of that document is left in the chunk store,
  no vector keyed by one of its chunk ids is left in the vector store, and a search on the
  store it leaves returns no result whose chunk belongs to the deleted document. This holds
  for every document id and every store, whether or not the metadata update at the end
  succeeds; the search is any query with any options and any embedding model.
\<close>

theorem C6_delete_removes_chunks_and_vectors:
  "(\<forall>c \<in> set (chunks (fst (deleteDocument d s))). docId c \<noteq> d) \<and>
   (\<forall>v \<in> set (vectors (fst (deleteDocument d s))).
      \<forall>c \<in> set (chunks s). docId c = d \<longrightarrow> vec_id v \<noteq> chunk_id c) \<and>
   (\<forall>res. search embedder q opts (fst (deleteDocument d s)) = Inr res \<longrightarrow>
      (\<forall>h \<in> set res. docId (chunk h) \<noteq> d))"
proof (intro conjI)
  show c: "\<forall>c \<in> set (chunks (fst (deleteDocument d s))). docId c \<noteq> d"
    unfolding deleteDocument_chunks by auto
  show "\<forall>v \<in> set (vectors (fst (deleteDocument d s))).
      \<forall>c \<in> set (chunks s). docId c = d \<longrightarrow> vec_id v \<noteq> chunk_id c"
    unfolding deleteDocument_vectors by auto
  show "\<forall>res. search embedder q opts (fst (deleteDocument d s)) = Inr res \<longrightarrow>
      (\<forall>h \<in> set res. docId (chunk h) \<noteq> d)"
    using c search_chunks by blast
qed


theorem C6_delete_removes_chunks_and_vectors_witness:
  "chunks (fst (deleteDocument 1 exampleStore)) =
     [\<lparr>docId = 2, text' = ''dogs bark'', position = 0, startIndex = 0, endIndex = 2,
       tokenCount = 4, chunk_id = 3\<rparr>] \<and>
   vectors (fst (deleteDocument 1 exampleStore)) =
     [\<lparr>vec_id = 3, chunkId = 3, blob = [1, 0], vec_dimensions = 2\<rparr>] \<and>
   snd (deleteDocument 1 exampleStore) = Inr \<lparr>deletedChunks = 2\<rparr> \<and>
   map (\<lambda>h. docId (chunk h))
     (projr (search exampleEmbedder ''pets''
        \<lparr>topK = 10, threshold = 0, useMMR = False, mmrLambda = 0.5\<rparr>
        exampleStore)) = [1, 2, 1] \<and>
   map (\<lambda>h. docId (chunk h))
     (projr (search exampleEmbedder ''pets''
        \<lparr>topK = 10, threshold = 0, useMMR = False, mmrLambda = 0.5\<rparr>
        (fst (deleteDocument 1 exampleStore)))) = [2] \<and>
   list_all (\<lambda>h. docId (chunk h) \<noteq> 1)
     (projr (search exampleEmbedder ''pets''
        \<lparr>topK = 10, threshold = 0, useMMR = False, mmrLambda = 0.5\<rparr>
        (fst (deleteDocument 1 exampleStore))))"
  using C6_delete_removes_chunks_and_vectors [of 1 exampleStore exampleEmbedder "''pets''"
      "\<lparr>topK = 10, threshold = 0, useMMR = False, mmrLambda = 0.5\<rparr>"]
  by (simp add: deleteDocument_def exampleStore_def deleteChunkAndVector_def idb_delete_def
      search_def queryVector_def exampleEmbedder_def cos_10_10 cos_10_01 idb_get_def
      findTopK_def slice_upto_def)

text \<open>
  C10: when neither a document nor a chunk is stored for the id, \<^verbatim>\<open>deleteDocument\<close> on an
  initialised store returns \<^verbatim>\<open>{deletedChunks: 0}\<close> and leaves the store as it was except
  for \<^verbatim>\<open>totalDocuments\<close>, which is one less. So the counter falls below the number of
  stored documents, and below zero on an empty store.
\<close>

theorem C10_delete_absent_document:
  assumes "\<forall>c \<in> set (chunks s). docId c \<noteq> d"
    and "\<forall>x \<in> set (documents s). doc_id x \<noteq> d"
    and "metadata s = Some cfg"
  shows "deleteDocument d s =
           (s\<lparr>metadata := Some (cfg\<lparr>totalDocuments := totalDocuments cfg - 1\<rparr>)\<rparr>,
            Inr \<lparr>deletedChunks = 0\<rparr>)"
proof -
  have "filter (\<lambda>c. docId c = d) (chunks s) = []" using assms(1) by (simp add: filter_empty_conv)
  moreover have "filter (\<lambda>r. doc_id r \<noteq> d) (documents s) = documents s" using assms(2) by (simp add: filter_id_conv)
  ultimately show ?thesis using assms(3)
    by (simp add: deleteDocument_def idb_delete_def)
qed



theorem C10_delete_absent_document_witness:
  "list_all (\<lambda>c. docId c \<noteq> 9) (chunks exampleStore) \<and>
   list_all (\<lambda>x. doc_id x \<noteq> 9) (documents exampleStore) \<and>
   snd (deleteDocument 9 exampleStore) = Inr \<lparr>deletedChunks = 0\<rparr> \<and>
   map_option totalDocuments (metadata exampleStore) = Some 2 \<and>
   map_option totalDocuments (metadata (fst (deleteDocument 9 exampleStore))) = Some 1 \<and>
   length (documents (fst (deleteDocument 9 exampleStore))) = 2 \<and>
   map_option totalDocuments (metadata (fst (deleteDocument 9 initialStore))) = Some (- 1)"
  using C10_delete_absent_document [of exampleStore 9 "the (metadata exampleStore)"]
    C10_delete_absent_document [of initialStore 9 "the (metadata initialStore)"]
  by (simp add: exampleStore_def initialStore_def)

section \<open>Properties of MMR reranking\<close>

lemma cos_examples:
  "cosineSimilarity [1, 0] [1, 0] = Inr 1"
  "cosineSimilarity [1, 0] [- 1, 0] = Inr (- 1)"
  "cosineSimilarity [- 1, 0] [1, 0] = Inr (- 1)"
  "cosineSimilarity [1, 0] [0, 1] = Inr 0"
  "cosineSimilarity [0, 1] [1, 0] = Inr 0"
  by (simp_all add: cosineSimilarity_def)

lemma mmr_three:
  "mmrRerank [1, 0] [cand [1, 0] 11, cand [- 1, 0] 12, cand [0, 1] 13] (1 / 4) 2 =
     Inr [(cand [1, 0] 11)\<lparr>score := 1\<rparr>, (cand [0, 1] 13)\<lparr>score := 0\<rparr>]"
  by (simp add: mmrRerank_def mmrLoop.simps exceeds_def splice1_def cand_def cos_examples Let_def)

text \<open>
  C1: every result after the first is the remaining candidate that maximises
  \<^verbatim>\<open>lambda * relevance - (1 - lambda) * max_similarity\<close>, where \<^verbatim>\<open>max_similarity\<close> is the
  largest similarity of the candidate to an already selected result. The code does not
  compute that for a candidate whose similarities to the selected results are all negative:
  \<^verbatim>\<open>maxSim\<close> starts at 0 and only a greater similarity replaces it. With the query
  \<^verbatim>\<open>[1, 0]\<close>, the candidates \<^verbatim>\<open>[1, 0]\<close>, \<^verbatim>\<open>[-1, 0]\<close> and \<^verbatim>\<open>[0, 1]\<close>, \<^verbatim>\<open>lambda = 1/4\<close> and
  \<^verbatim>\<open>topK = 2\<close>, the first result is \<^verbatim>\<open>[1, 0]\<close> and the second is \<^verbatim>\<open>[0, 1]\<close>. The relevance of
  \<^verbatim>\<open>[-1, 0]\<close> is -1 and its similarity to the selected \<^verbatim>\<open>[1, 0]\<close> is -1; the relevance of
  \<^verbatim>\<open>[0, 1]\<close> is 0 and its similarity to \<^verbatim>\<open>[1, 0]\<close> is 0. So the formula gives \<^verbatim>\<open>[-1, 0]\<close> the
  value 1/2 and \<^verbatim>\<open>[0, 1]\<close> the value 0, and \<^verbatim>\<open>[-1, 0]\<close> is the maximiser the code does not
  return. Every number of this input, 1, 0, -1, 1/4, 3/4, 1/2, is computed without rounding
  in doubles.
\<close>

theorem C1_mmrRerank_negative_similarity:
  "mmrRerank [1, 0] [cand [1, 0] 11, cand [- 1, 0] 12, cand [0, 1] 13] (1 / 4) 2 =
     Inr [(cand [1, 0] 11)\<lparr>score := 1\<rparr>, (cand [0, 1] 13)\<lparr>score := 0\<rparr>] \<and>
   cosineSimilarity [1, 0] (vector (cand [- 1, 0] 12)) = Inr (- 1) \<and>
   cosineSimilarity (vector (cand [- 1, 0] 12)) (vector (cand [1, 0] 11)) = Inr (- 1) \<and>
   cosineSimilarity [1, 0] (vector (cand [0, 1] 13)) = Inr 0 \<and>
   cosineSimilarity (vector (cand [0, 1] 13)) (vector (cand [1, 0] 11)) = Inr 0 \<and>
   (1 / 4) * (- 1) - (1 - 1 / 4) * (- 1) > (1 / 4) * 0 - (1 - 1 / 4) * (0::real)"
  by (simp add: mmr_three) (simp add: cand_def cos_examples)

section \<open>Properties of the context assembler\<close>

lemma estimateTokens_pos: "estimateTokens t \<ge> 1"
proof -
  have "length (splitWs t) \<ge> 1" by (subst splitWs.simps) (simp add: Let_def)
  then show ?thesis unfolding estimateTokens_div by linarith
qed

lemma contextLoop_spec:
  assumes "contextLoop cfg rs cc cur = Inr (cc', cur')"
  shows "\<exists>n \<le> length rs.
           length cc' = length cc + n \<and>
           map cc_text cc' = map cc_text cc @ map (\<lambda>h. text' (chunk h)) (take n rs) \<and>
           cur' = cur + costs (take n rs) \<and>
           (n < length rs \<longrightarrow>
              cur' + estimateTokens (text' (chunk (rs ! n))) > maxContextTokens cfg \<or>
              (n \<ge> 1 \<and> int (length cc') \<ge> topK cfg)) \<and>
           (\<forall>m < n. cur + costs (take (m + 1) rs) \<le> maxContextTokens cfg \<and>
                     (m + 1 < n \<longrightarrow> int (length cc + (m + 1)) < topK cfg))"
  using assms
proof (induction rs arbitrary: cc cur)
  case Nil
  then show ?case by (simp add: costs_def)
next
  case (Cons r rest)
  let ?t = "estimateTokens (text' (chunk r))"
  show ?case
  proof (cases "cur + ?t > maxContextTokens cfg")
    case True
    with Cons.prems have "cc' = cc" "cur' = cur" by simp_all
    with True show ?thesis by (intro exI[of _ 0]) (simp add: costs_def)
  next
    case False
    with Cons.prems obtain doc where doc: "document r = Some doc"
      by (auto split: option.splits)
    let ?cc1 = "cc @ [\<lparr>cc_text = text' (chunk r), cc_score = score r,
                     cc_position = position (chunk r), cc_docId = doc_id doc,
                     docName = name doc\<rparr>]"
    show ?thesis
    proof (cases "int (length ?cc1) \<ge> topK cfg")
      case True
      with False doc Cons.prems have e: "cc' = ?cc1" "cur' = cur + ?t" by (simp_all add: Let_def)
      show ?thesis
        using e True False by (intro exI[of _ 1]) (simp add: costs_def)
    next
      case nf: False
      with False doc Cons.prems have "contextLoop cfg rest ?cc1 (cur + ?t) = Inr (cc', cur')"
        by (simp add: Let_def)
      from Cons.IH[OF this] obtain n where n: "n \<le> length rest"
        "length cc' = length ?cc1 + n"
        "map cc_text cc' = map cc_text ?cc1 @ map (\<lambda>h. text' (chunk h)) (take n rest)"
        "cur' = cur + ?t + costs (take n rest)"
        "n < length rest \<longrightarrow>
              cur' + estimateTokens (text' (chunk (rest ! n))) > maxContextTokens cfg \<or>
              (n \<ge> 1 \<and> int (length cc') \<ge> topK cfg)"
        "\<forall>m < n. cur + ?t + costs (take (m + 1) rest) \<le> maxContextTokens cfg \<and>
                     (m + 1 < n \<longrightarrow> int (length ?cc1 + (m + 1)) < topK cfg)"
        by blast
      show ?thesis
      proof (intro exI[of _ "Suc n"] conjI allI impI)
        show "Suc n \<le> length (r # rest)" using n(1) by simp
        show "length cc' = length cc + Suc n" using n(2) by simp
        show "map cc_text cc' = map cc_text cc @ map (\<lambda>h. text' (chunk h)) (take (Suc n) (r # rest))"
          using n(3) by simp
        show "cur' = cur + costs (take (Suc n) (r # rest))" using n(4) by (simp add: costs_def)
        show "cur' + estimateTokens (text' (chunk ((r # rest) ! Suc n))) > maxContextTokens cfg \<or>
              (Suc n \<ge> 1 \<and> int (length cc') \<ge> topK cfg)" if "Suc n < length (r # rest)"
          using n(5) that by auto
      next
        fix m assume m: "m < Suc n"
        show "cur + costs (take (m + 1) (r # rest)) \<le> maxContextTokens cfg"
        proof (cases m)
          case 0
          with False show ?thesis by (simp add: costs_def)
        next
          case (Suc k)
          with m n(6) have "cur + ?t + costs (take (k + 1) rest) \<le> maxContextTokens cfg" by simp
          with Suc show ?thesis by (simp add: costs_def)
        qed
      next
        fix m assume m: "m < Suc n" and m1: "m + 1 < Suc n"
        show "int (length cc + (m + 1)) < topK cfg"
        proof (cases m)
          case 0
          with nf show ?thesis by simp
        next
          case (Suc k)
          with m m1 n(6) have "int (length ?cc1 + (k + 1)) < topK cfg" by simp
          with Suc show ?thesis by simp
        qed
      qed
    qed
  qed
qed


lemma scan_example:
  "scanVectors exampleStore [1, 0] (3 / 10) (vectors exampleStore) = Inr [hit1, hit3]"
  by (simp add: exampleStore_def cos_10_10 cos_10_01 idb_get_def hit1_def hit3_def)

lemma mmr_example_10:
  "mmrRerank [1, 0] [hit1, hit3] (1 / 2) 10 = Inr [hit1, hit3\<lparr>score := 0\<rparr>]"
  by (simp add: mmrRerank_def mmrLoop.simps exceeds_def splice1_def hit1_def hit3_def
      cos_10_10 Let_def)

lemma mmr_example_0:
  "mmrRerank [1, 0] [hit1, hit3] (1 / 2) 0 = Inr [hit1]"
  by (simp add: mmrRerank_def mmrLoop.simps exceeds_def splice1_def hit1_def hit3_def
      cos_10_10 Let_def)

lemma est_cats: "estimateTokens ''cats purr'' = 3"
  by (simp add: estimateTokens_div splitWs.simps isSpace_def)
lemma est_dogs: "estimateTokens ''dogs bark'' = 3"
  by (simp add: estimateTokens_div splitWs.simps isSpace_def)

lemma search_example_10:
  "search exampleEmbedder ''pets'' (searchOptions defaultOptions) exampleStore = Inr [hit1, hit3\<lparr>score := 0\<rparr>]"
  by (simp add: search_def queryVector_def exampleEmbedder_def searchOptions_def defaultOptions_def
     scan_example mmr_example_10)

lemma search_example_0:
  "search exampleEmbedder ''pets'' (searchOptions (defaultOptions\<lparr>topK := 0\<rparr>)) exampleStore = Inr [hit1]"
  by (simp add: search_def queryVector_def exampleEmbedder_def searchOptions_def defaultOptions_def
     scan_example mmr_example_0)

lemma search_example_m1:
  "search exampleEmbedder ''pets'' (searchOptions (defaultOptions\<lparr>maxContextTokens := - 1\<rparr>)) exampleStore = Inr [hit1, hit3\<lparr>score := 0\<rparr>]"
  by (simp add: search_def queryVector_def exampleEmbedder_def searchOptions_def defaultOptions_def
     scan_example mmr_example_10)

lemma search_example_5:
  "search exampleEmbedder ''pets'' (searchOptions (defaultOptions\<lparr>maxContextTokens := 5\<rparr>)) exampleStore = Inr [hit1, hit3\<lparr>score := 0\<rparr>]"
  by (simp add: search_def queryVector_def exampleEmbedder_def searchOptions_def defaultOptions_def
     scan_example mmr_example_10)


text \<open>
  C2, as stated: \<^verbatim>\<open>tokensUsed\<close> never exceeds \<^verbatim>\<open>maxContextTokens\<close> and \<^verbatim>\<open>chunksUsed\<close> never
  exceeds \<^verbatim>\<open>topK\<close>, for every query and options. With \<^verbatim>\<open>maxContextTokens = -1\<close> the call
  returns \<^verbatim>\<open>tokensUsed = 0\<close>, which exceeds it. With \<^verbatim>\<open>topK = 0\<close> and MMR (the default)
  the search still returns its first pick and the loop pushes it before it tests the count,
  so \<^verbatim>\<open>chunksUsed\<close> is 1.
\<close>

theorem C2_budget_counterexample:
  "retrieveContext exampleEmbedder ''pets'' (defaultOptions\<lparr>maxContextTokens := - 1\<rparr>) exampleStore =
     Inr \<lparr>includedChunks = [], tokensUsed = 0, chunksUsed = 0\<rparr> \<and>
   tokensUsed (projr (retrieveContext exampleEmbedder ''pets''
       (defaultOptions\<lparr>maxContextTokens := - 1\<rparr>) exampleStore))
     > maxContextTokens (defaultOptions\<lparr>maxContextTokens := - 1\<rparr>) \<and>
   retrieveContext exampleEmbedder ''pets'' (defaultOptions\<lparr>topK := 0\<rparr>) exampleStore =
     Inr \<lparr>includedChunks = [\<lparr>cc_text = ''cats purr'', cc_score = 1, cc_position = 0, cc_docId = 1,
                              docName = ''cats''\<rparr>],
          tokensUsed = 3, chunksUsed = 1\<rparr> \<and>
   int (chunksUsed (projr (retrieveContext exampleEmbedder ''pets''
       (defaultOptions\<lparr>topK := 0\<rparr>) exampleStore)))
     > topK (defaultOptions\<lparr>topK := 0\<rparr>)"
  by (simp add: retrieveContext_def search_example_m1 search_example_0 est_cats est_dogs)
   (simp add: hit1_def hit3_def defaultOptions_def est_cats est_dogs)

text \<open>
  C2, amended: whenever \<^verbatim>\<open>retrieveContext\<close> returns, the included chunks are the first
  \<^verbatim>\<open>chunksUsed\<close> search results in their order, \<^verbatim>\<open>tokensUsed\<close> is the sum of their estimated
  costs, \<^verbatim>\<open>tokensUsed\<close> is at most \<^verbatim>\<open>maxContextTokens\<close> when that is not negative and 0
  otherwise, and \<^verbatim>\<open>chunksUsed\<close> is at most \<^verbatim>\<open>topK\<close> when that is at least 1 and at most 1
  otherwise. The loop stops at the first result whose cost would push the total over
  \<^verbatim>\<open>maxContextTokens\<close>, or after the push that brings the count to \<^verbatim>\<open>topK\<close> or more,
  whichever comes first: no earlier result would have exceeded the budget and no earlier
  count had reached \<^verbatim>\<open>topK\<close>.
\<close>

theorem C2_context_budget:
  assumes srch: "search embedder q (searchOptions cfg) s = Inr results"
    and ret: "retrieveContext embedder q cfg s = Inr r"
  shows "tokensUsed r \<le> max 0 (maxContextTokens cfg) \<and>
         int (chunksUsed r) \<le> max 1 (topK cfg) \<and>
         chunksUsed r \<le> length results \<and>
         map cc_text (includedChunks r) = map (\<lambda>h. text' (chunk h)) (take (chunksUsed r) results) \<and>
         tokensUsed r = costs (take (chunksUsed r) results) \<and>
         (chunksUsed r < length results \<longrightarrow>
            tokensUsed r + estimateTokens (text' (chunk (results ! chunksUsed r))) > maxContextTokens cfg \<or>
            (chunksUsed r \<ge> 1 \<and> int (chunksUsed r) \<ge> topK cfg)) \<and>
         (\<forall>m < chunksUsed r.
            costs (take (m + 1) results) \<le> maxContextTokens cfg \<and>
            (m + 1 < chunksUsed r \<longrightarrow> int (m + 1) < topK cfg))"
proof (cases "results = []")
  case True
  with srch ret have "r = \<lparr>includedChunks = [], tokensUsed = 0, chunksUsed = 0\<rparr>"
    by (simp add: retrieveContext_def)
  with True show ?thesis by (simp add: costs_def)
next
  case False
  with srch ret obtain cc cur where
    loop: "contextLoop cfg results [] 0 = Inr (cc, cur)" and
    r: "r = \<lparr>includedChunks = cc, tokensUsed = cur, chunksUsed = length cc\<rparr>"
    by (auto simp: retrieveContext_def split: sum.splits)
  from contextLoop_spec[OF loop] obtain n where n: "n \<le> length results"
    "length cc = n"
    "map cc_text cc = map (\<lambda>h. text' (chunk h)) (take n results)"
    "cur = costs (take n results)"
    "n < length results \<longrightarrow>
       cur + estimateTokens (text' (chunk (results ! n))) > maxContextTokens cfg \<or>
       (n \<ge> 1 \<and> int (length cc) \<ge> topK cfg)"
    "\<forall>m < n. costs (take (m + 1) results) \<le> maxContextTokens cfg \<and>
              (m + 1 < n \<longrightarrow> int (m + 1) < topK cfg)"
    by auto
  have tok: "cur \<le> max 0 (maxContextTokens cfg)"
  proof (cases n)
    case 0
    with n(4) show ?thesis by (simp add: costs_def)
  next
    case (Suc k)
    with n(6) have "costs (take (k + 1) results) \<le> maxContextTokens cfg" by simp
    with Suc n(4) show ?thesis by simp
  qed
  have cnt: "int n \<le> max 1 (topK cfg)"
  proof (cases "n \<le> 1")
    case True
    then show ?thesis by simp
  next
    case False
    then obtain k where k: "n = Suc (Suc k)" by (cases n; cases "n - 1") auto
    with n(6) have "int (k + 1) < topK cfg" by simp
    with k show ?thesis by simp
  qed
  from tok cnt n r show ?thesis by simp
qed

theorem C2_context_budget_witness:
  "search exampleEmbedder ''pets'' (searchOptions (defaultOptions\<lparr>maxContextTokens := 5\<rparr>)) exampleStore =
     Inr [hit1, hit3\<lparr>score := 0\<rparr>] \<and>
   retrieveContext exampleEmbedder ''pets'' (defaultOptions\<lparr>maxContextTokens := 5\<rparr>) exampleStore =
     Inr \<lparr>includedChunks = [\<lparr>cc_text = ''cats purr'', cc_score = 1, cc_position = 0, cc_docId = 1,
                              docName = ''cats''\<rparr>],
          tokensUsed = 3, chunksUsed = 1\<rparr> \<and>
   (3::int) \<le> max 0 5 \<and> (1::int) \<le> max 1 5 \<and>
   (3::int) + estimateTokens (text' (chunk ([hit1, hit3\<lparr>score := 0\<rparr>] ! 1))) > 5"
proof -
  have r: "retrieveContext exampleEmbedder ''pets'' (defaultOptions\<lparr>maxContextTokens := 5\<rparr>) exampleStore =
     Inr \<lparr>includedChunks = [\<lparr>cc_text = ''cats purr'', cc_score = 1, cc_position = 0, cc_docId = 1,
                              docName = ''cats''\<rparr>],
          tokensUsed = 3, chunksUsed = 1\<rparr>"
    by (simp add: retrieveContext_def search_example_5)
       (simp add: hit1_def hit3_def defaultOptions_def est_cats est_dogs)
  from C2_context_budget [OF search_example_5 r] search_example_5 r show ?thesis
    by (simp add: defaultOptions_def)
qed


section \<open>Properties of the generation controller\<close>

lemmas engine_defs = stop_def invokeAbort_def timeoutHandler_def callback_function_def
  handleEvent_def invoke_def signalAborted_def ctlAborted_def

lemma borrowed_step:
  assumes "borrowed s"
  shows "borrowed (fst (handleEvent opts e (s, loc))) \<and>
         abortCalls (fst (handleEvent opts e (s, loc))) = abortCalls s \<and>
         externalSignalAborted (fst (handleEvent opts e (s, loc))) =
           (externalSignalAborted s \<or> e = CallerAborts)"
  using assms by (cases e) (auto simp: borrowed_def engine_defs Let_def)

lemma borrowed_run:
  "borrowed s \<Longrightarrow>
   borrowed (fst (runEvents opts es (s, loc))) \<and>
   abortCalls (fst (runEvents opts es (s, loc))) = abortCalls s \<and>
   externalSignalAborted (fst (runEvents opts es (s, loc))) =
     (externalSignalAborted s \<or> CallerAborts \<in> set es)"
proof (induction es arbitrary: s loc)
  case Nil
  then show ?case by simp
next
  case (Cons e es)
  obtain s' loc' where h: "handleEvent opts e (s, loc) = (s', loc')" by (cases "handleEvent opts e (s, loc)")
  from borrowed_step[OF Cons.prems, of opts e loc] h
  have b: "borrowed s'" and a: "abortCalls s' = abortCalls s"
    and x: "externalSignalAborted s' = (externalSignalAborted s \<or> e = CallerAborts)" by simp_all
  from Cons.IH[OF b, of loc'] h a x show ?case by auto
qed

lemma borrowed_stop: "borrowed s \<Longrightarrow> abortCalls (stop s) = abortCalls s"
  by (simp add: borrowed_def engine_defs)

lemma owned_step: "owned s \<Longrightarrow> owned (fst (handleEvent opts e (s, loc)))"
  by (cases e) (auto simp: owned_def engine_defs Let_def)

lemma owned_run: "owned s \<Longrightarrow> owned (fst (runEvents opts es (s, loc)))"
proof (induction es arbitrary: s loc)
  case Nil
  then show ?case by simp
next
  case (Cons e es)
  obtain s' loc' where h: "handleEvent opts e (s, loc) = (s', loc')" by (cases "handleEvent opts e (s, loc)")
  from owned_step[OF Cons.prems, of opts e loc] h have "owned s'" by simp
  from Cons.IH[OF this, of loc'] h show ?case by simp
qed

lemma owned_stop:
  "owned s \<Longrightarrow> ownSignalAborted (stop s) \<and>
     (\<not> ownSignalAborted s \<longrightarrow> abortCalls (stop s) = abortCalls s @ [OwnSignal])"
  by (auto simp: owned_def engine_defs)

lemma stop_callbacks: "callbacks (stop s) = callbacks s"
  by (auto simp: stop_def invokeAbort_def split: option.splits signal_ref.splits)

lemma step_callbacks:
  "\<exists>cs. callbacks (fst (handleEvent opts e (s, loc))) = callbacks s @ cs \<and>
        (e \<noteq> TimeoutFires \<longrightarrow> (\<forall>c \<in> set cs. \<not> isOnError c))"
  by (cases e) (auto simp: handleEvent_def callback_function_def timeoutHandler_def invoke_def
      stop_callbacks Let_def isOnError_def)

lemma run_callbacks:
  "\<exists>cs. callbacks (fst (runEvents opts es (s, loc))) = callbacks s @ cs \<and>
        (TimeoutFires \<notin> set es \<longrightarrow> (\<forall>c \<in> set cs. \<not> isOnError c))"
proof (induction es arbitrary: s loc)
  case Nil
  then show ?case by simp
next
  case (Cons e es)
  obtain s' loc' where h: "handleEvent opts e (s, loc) = (s', loc')" by (cases "handleEvent opts e (s, loc)")
  from step_callbacks[of opts e s loc] h obtain cs where
    cs: "callbacks s' = callbacks s @ cs" "e \<noteq> TimeoutFires \<longrightarrow> (\<forall>c \<in> set cs. \<not> isOnError c)"
    by auto
  from Cons.IH[of s' loc'] obtain ds where
    ds: "callbacks (fst (runEvents opts es (s', loc'))) = callbacks s' @ ds"
        "TimeoutFires \<notin> set es \<longrightarrow> (\<forall>c \<in> set ds. \<not> isOnError c)"
    by auto
  have "callbacks (fst (runEvents opts (e # es) (s, loc))) = callbacks s @ (cs @ ds)"
    using h cs(1) ds(1) by simp
  moreover have "TimeoutFires \<notin> set (e # es) \<longrightarrow> (\<forall>c \<in> set (cs @ ds). \<not> isOnError c)"
    using cs(2) ds(2) by auto
  ultimately show ?case by blast
qed

lemma includes_simps:
  "includes_str ''Hel'' ''</s>'' = False"
  "includes_str ''Hel'' (CHR 0x0A # CHR 0x0A # ''User:'') = False"
  "includes_str ''Hel'' (CHR 0x0A # CHR 0x0A # ''Human:'') = False"
  "includes_str ''Hel'' ''[END]'' = False"
  by (simp_all add: includes_str_def indexOf_def)

lemma mid_own:
  "runEvents ownOptions [Token ''Hel''] (startSession ownOptions idleEngine, newSession) =
     (idleEngine\<lparr>isGenerating := True, ownAbortController := True,
        abortController := Some \<lparr>signal = OwnSignal, hasAbort = True\<rparr>,
        callbacks := [OnToken ''Hel'' 1 ''Hel'']\<rparr>,
      \<lparr>generatedText = ''Hel'', tokenCount' = 1\<rparr>)"
  by (simp add: ownOptions_def startSession_def idleEngine_def newSession_def engine_defs
      shouldStop_def includes_simps Let_def)


text \<open>
  C7: while a session is active, that is while \<^verbatim>\<open>isGenerating\<close> is set, a further call of
  \<^verbatim>\<open>generateStream\<close> throws the busy error at once: whatever its options and whatever the
  model would do, the engine is left exactly as it was (nothing is queued, no callback is
  called, the controller and the flags of the active session are untouched).
\<close>

theorem C7_busy:
  "isGenerating s \<Longrightarrow> generateStream opts events result s = (s, Inl Busy)"
  by (simp add: generateStream_def)

theorem C7_busy_witness:
  "isGenerating (fst (runEvents ownOptions [Token ''Hel''] (startSession ownOptions idleEngine, newSession))) \<and>
   generateStream externalOptions [Token ''x''] (Resolves ''x'')
     (fst (runEvents ownOptions [Token ''Hel''] (startSession ownOptions idleEngine, newSession))) =
     (fst (runEvents ownOptions [Token ''Hel''] (startSession ownOptions idleEngine, newSession)), Inl Busy)"
  using C7_busy [of "fst (runEvents ownOptions [Token ''Hel''] (startSession ownOptions idleEngine, newSession))"
      externalOptions "[Token ''x'']" "Resolves ''x''"]
  unfolding mid_own by simp


text \<open>
  C8: in a session started with a signal of the caller, the controller never calls
  \<^verbatim>\<open>abort()\<close>: after any sequence of streamed tokens (stop-sequence and length-limit paths
  included), \<^verbatim>\<open>stop()\<close> calls, timeouts and aborts by the caller, and after a further
  \<^verbatim>\<open>stop()\<close>, the list of the controller's abort calls is what it was before the session,
  and the caller's signal has fired exactly if it had fired before or the caller fired it.
  In a session that created its own controller, \<^verbatim>\<open>stop()\<close> at any moment leaves the own
  signal fired, and when it had not fired yet, it is this \<^verbatim>\<open>stop()\<close> that calls
  \<^verbatim>\<open>abort()\<close> on it.
\<close>

theorem C8_abort_ownership:
  "(signalGiven opts \<longrightarrow>
      abortCalls (fst (generateStream opts events result s)) = abortCalls s \<and>
      (\<forall>es. abortCalls (stop (fst (runEvents opts es (startSession opts s, newSession)))) = abortCalls s) \<and>
      abortCalls (fst (runEvents opts events (startSession opts s, newSession))) = abortCalls s \<and>
      externalSignalAborted (fst (runEvents opts events (startSession opts s, newSession))) =
        (externalSignalAborted s \<or> CallerAborts \<in> set events)) \<and>
   (\<not> signalGiven opts \<longrightarrow>
      ownSignalAborted (stop (fst (runEvents opts events (startSession opts s, newSession)))) \<and>
      (\<not> ownSignalAborted (fst (runEvents opts events (startSession opts s, newSession))) \<longrightarrow>
         abortCalls (stop (fst (runEvents opts events (startSession opts s, newSession)))) =
           abortCalls (fst (runEvents opts events (startSession opts s, newSession))) @ [OwnSignal]))"
proof (intro conjI impI)
  assume g: "signalGiven opts"
  then have b: "borrowed (startSession opts s)" by (simp add: borrowed_def startSession_def)
  have a0: "abortCalls (startSession opts s) = abortCalls s"
    and x0: "externalSignalAborted (startSession opts s) = externalSignalAborted s"
    using g by (simp_all add: startSession_def)
  from borrowed_run[OF b, of opts events newSession] a0 x0
  show "abortCalls (fst (runEvents opts events (startSession opts s, newSession))) = abortCalls s"
    and "externalSignalAborted (fst (runEvents opts events (startSession opts s, newSession))) =
        (externalSignalAborted s \<or> CallerAborts \<in> set events)" by simp_all
  have "abortCalls (fst (runEvents opts events (startSession opts s, newSession))) = abortCalls s"
    using borrowed_run[OF b, of opts events newSession] a0 by simp
  then show "abortCalls (fst (generateStream opts events result s)) = abortCalls s"
    by (cases result) (simp_all add: generateStream_def Let_def finallyBlock_def invoke_def)
  show "\<forall>es. abortCalls (stop (fst (runEvents opts es (startSession opts s, newSession)))) = abortCalls s"
  proof
    fix es
    from borrowed_run[OF b, of opts es newSession] a0
    have "borrowed (fst (runEvents opts es (startSession opts s, newSession)))"
      and "abortCalls (fst (runEvents opts es (startSession opts s, newSession))) = abortCalls s"
      by simp_all
    with borrowed_stop
    show "abortCalls (stop (fst (runEvents opts es (startSession opts s, newSession)))) = abortCalls s"
      by simp
  qed
next
  assume "\<not> signalGiven opts"
  then have "owned (startSession opts s)" by (simp add: owned_def startSession_def)
  from owned_stop[OF owned_run[OF this, of opts events newSession]]
  show "ownSignalAborted (stop (fst (runEvents opts events (startSession opts s, newSession))))"
    and "\<not> ownSignalAborted (fst (runEvents opts events (startSession opts s, newSession))) \<Longrightarrow>
         abortCalls (stop (fst (runEvents opts events (startSession opts s, newSession)))) =
           abortCalls (fst (runEvents opts events (startSession opts s, newSession))) @ [OwnSignal]"
    by simp_all
qed


theorem C8_abort_ownership_witness:
  "signalGiven externalOptions \<and> \<not> signalGiven ownOptions \<and>
   abortCalls (stop (fst (runEvents externalOptions [Token ''Hel''] (startSession externalOptions idleEngine, newSession)))) = [] \<and>
   \<not> externalSignalAborted (stop (fst (runEvents externalOptions [Token ''Hel''] (startSession externalOptions idleEngine, newSession)))) \<and>
   abortCalls (fst (runEvents externalOptions [Token ''Hel'', TimeoutFires, StopCall] (startSession externalOptions idleEngine, newSession))) = [] \<and>
   \<not> ownSignalAborted (fst (runEvents ownOptions [Token ''Hel''] (startSession ownOptions idleEngine, newSession))) \<and>
   ownSignalAborted (stop (fst (runEvents ownOptions [Token ''Hel''] (startSession ownOptions idleEngine, newSession)))) \<and>
   abortCalls (stop (fst (runEvents ownOptions [Token ''Hel''] (startSession ownOptions idleEngine, newSession)))) = [OwnSignal]"
  using C8_abort_ownership [of externalOptions "[Token ''Hel'', TimeoutFires, StopCall]" "Resolves ''Hello''" idleEngine]
    C8_abort_ownership [of ownOptions "[Token ''Hel'']" "Resolves ''Hello''" idleEngine]
  by (simp add: ownOptions_def externalOptions_def startSession_def idleEngine_def newSession_def engine_defs
      shouldStop_def includes_simps Let_def)


text \<open>
  The \<^verbatim>\<open>catch\<close> block: when the awaited model call is rejected and either the error is an
  \<^verbatim>\<open>AbortError\<close> or the session's abort signal has fired, \<^verbatim>\<open>generateStream\<close> returns the
  text accumulated so far instead of throwing; the only callback called for this ending is
  \<^verbatim>\<open>onDone\<close>, when supplied, with that text, the token count and \<^verbatim>\<open>aborted: true\<close>; no
  \<^verbatim>\<open>onError\<close> call is made during the whole call unless the timer fired, which reports its
  own timeout error; and the engine is idle afterwards.
\<close>

lemma rejected_call_reports_abort:
  assumes idle: "\<not> isGenerating s" and loaded: "pipelineLoaded s"
    and cancelled: "errorName = ''AbortError'' \<or>
                    ctlAborted (fst (runEvents opts events (startSession opts s, newSession)))"
  shows "snd (generateStream opts events (Rejects errorName) s) =
           Inr (generatedText (snd (runEvents opts events (startSession opts s, newSession)))) \<and>
         callbacks (fst (generateStream opts events (Rejects errorName) s)) =
           callbacks (fst (runEvents opts events (startSession opts s, newSession))) @
           (if hasOnDone opts
            then [OnDone \<lparr>done_text = generatedText (snd (runEvents opts events (startSession opts s, newSession))),
                          tokens = tokenCount' (snd (runEvents opts events (startSession opts s, newSession))),
                          aborted = True\<rparr>]
            else []) \<and>
         (TimeoutFires \<notin> set events \<longrightarrow>
            (\<forall>c \<in> set (drop (length (callbacks s)) (callbacks (fst (generateStream opts events (Rejects errorName) s)))).
               \<not> isOnError c)) \<and>
         \<not> isGenerating (fst (generateStream opts events (Rejects errorName) s))"
proof -
  let ?st = "runEvents opts events (startSession opts s, newSession)"
  let ?done = "OnDone \<lparr>done_text = generatedText (snd ?st), tokens = tokenCount' (snd ?st), aborted = True\<rparr>"
  have g: "generateStream opts events (Rejects errorName) s =
             (finallyBlock (invoke (hasOnDone opts) ?done (fst ?st)), Inr (generatedText (snd ?st)))"
    using idle loaded cancelled by (auto simp: generateStream_def Let_def)
  have cb: "callbacks (fst (generateStream opts events (Rejects errorName) s)) =
              callbacks (fst ?st) @ (if hasOnDone opts then [?done] else [])"
    by (simp add: g finallyBlock_def invoke_def)
  from run_callbacks[of opts events "startSession opts s" newSession] obtain cs where
    cs: "callbacks (fst ?st) = callbacks (startSession opts s) @ cs"
        "TimeoutFires \<notin> set events \<longrightarrow> (\<forall>c \<in> set cs. \<not> isOnError c)"
    by auto
  have s0: "callbacks (startSession opts s) = callbacks s" by (simp add: startSession_def)
  have "drop (length (callbacks s)) (callbacks (fst (generateStream opts events (Rejects errorName) s))) =
          cs @ (if hasOnDone opts then [?done] else [])"
    by (simp add: cb cs(1) s0)
  with cs(2) have ne: "TimeoutFires \<notin> set events \<longrightarrow>
            (\<forall>c \<in> set (drop (length (callbacks s)) (callbacks (fst (generateStream opts events (Rejects errorName) s)))).
               \<not> isOnError c)"
    by (auto simp: isOnError_def)
  have "\<not> isGenerating (fst (generateStream opts events (Rejects errorName) s))"
    by (simp add: g finallyBlock_def)
  with g cb ne show ?thesis by simp
qed

text \<open>
  C9: a session whose abort signal fired ends as a cancellation: \<^verbatim>\<open>onDone\<close> gets the partial
  text accumulated so far with \<^verbatim>\<open>aborted: true\<close>, and the call returns that partial text.
  The code does this only in its \<^verbatim>\<open>catch\<close> block, when the model call is rejected. The
  signal is never given to the model call, so after \<^verbatim>\<open>stop()\<close> the model call goes on and
  resolves, and the path after the \<^verbatim>\<open>await\<close> does not look at the signal. In a session
  without a signal of the caller the model streams \<^verbatim>\<open>Hel\<close>, \<^verbatim>\<open>stop()\<close> is called, the model
  streams \<^verbatim>\<open>lo\<close>, which the streamer callback drops, and the model call resolves with
  \<^verbatim>\<open>Hello\<close>. The signal of the session has fired and the accumulated text is \<^verbatim>\<open>Hel\<close>, but
  \<^verbatim>\<open>onDone\<close> is called with the text \<^verbatim>\<open>Hello\<close> and without the \<^verbatim>\<open>aborted\<close> flag, and the
  call returns \<^verbatim>\<open>Hello\<close>.
\<close>

theorem C9_stop_then_resolve:
  "ctlAborted (fst (runEvents ownOptions [Token ''Hel'', StopCall, Token ''lo'']
                      (startSession ownOptions idleEngine, newSession))) \<and>
   generatedText (snd (runEvents ownOptions [Token ''Hel'', StopCall, Token ''lo'']
                         (startSession ownOptions idleEngine, newSession))) = ''Hel'' \<and>
   snd (generateStream ownOptions [Token ''Hel'', StopCall, Token ''lo''] (Resolves ''Hello'') idleEngine) =
     Inr ''Hello'' \<and>
   callbacks (fst (generateStream ownOptions [Token ''Hel'', StopCall, Token ''lo''] (Resolves ''Hello'') idleEngine)) =
     [OnToken ''Hel'' 1 ''Hel'', OnDone \<lparr>done_text = ''Hello'', tokens = 1, aborted = False\<rparr>]"
  by (simp add: generateStream_def finallyBlock_def invoke_def ctlAborted_def signalAborted_def
      ownOptions_def startSession_def idleEngine_def newSession_def engine_defs
      shouldStop_def includes_simps Let_def)


end
